theory Spec2Isabelle
  imports Complex_Main "HOL-Library.AList" "HOL-Library.List_Lexorder" "HOL-Library.Product_Lexorder"
  "HOL-Library.Multiset"
begin

section \<open>Strings\<close>

text \<open>
  A Python \<open>str\<close> is a sequence of Unicode code points. It is modelled as a list of
  natural numbers, one per code point, so that one element is one character of the source
  (as its regular expressions and its \<open>split\<close> see it) and the order of
  \<open>HOL-Library.List_Lexorder\<close> is Python's string comparison. \<open>str\<close> turns
  an ASCII literal into such a list.
\<close>

type_synonym str = "nat list"

definition str :: "string \<Rightarrow> str" where
  "str s = map of_char s"

section \<open>The inventory model\<close>

text \<open>
  A part record is the dictionary built by \<open>scan_project_folder\<close> and
  \<open>load_master_csv\<close>: sixteen fixed keys. \<open>Projects\<close> is a Python set of project
  names; it is modelled by the list of its elements without repetition. The order of that
  list stands for the iteration order of the set, which the source reads only through
  \<open>list(new_part['Projects'])[0]\<close>.
\<close>

record part =
  Type :: str
  Value :: str
  Voltage :: str
  Tolerance :: str
  Extra :: str
  Footprint :: str
  Stock :: str
  Manufacturer :: str
  MPN :: str
  Digikey_PN :: str
  Mouser_PN :: str
  Description :: str
  Symbol :: str
  Datasheet :: str
  Projects :: "str list"
  Last_Used :: str

text \<open>
  An inventory is a Python \<open>dict\<close> from MPN to part record. It is an association list in
  insertion order: \<open>map_of\<close> is the lookup, \<open>AList.update\<close> is the assignment
  \<open>d[k] = v\<close> (in place for a key that is present, at the end for a new one).
\<close>

type_synonym inventory = "(str \<times> part) list"

datatype error = IndexError

section \<open>The merge engine: \<open>merge_data\<close>\<close>

text \<open>
  The entries of the two returned lists are formatted strings in the source; they are kept
  here as the values the format strings are filled with. \<open>info\<close> are the lines printed
  when a description or a symbol is replaced.
\<close>

datatype change =
    New_Part str str str          \<comment> \<open>\<open>New Part: {Type} {Value} ({mpn})\<close>\<close>
  | Added_Project str str         \<comment> \<open>\<open>Updated {mpn}: Added project '{new_proj}'\<close>\<close>
  | Filled_Missing str            \<comment> \<open>\<open>Updated {mpn}: Filled missing data\<close>\<close>

datatype conflict =
    CONFLICT (conflict_mpn: str) str str str str
      \<comment> \<open>\<open>CONFLICT: MPN {mpn} ... Master: {Value} [{Footprint}] New: {Value} [{Footprint}]\<close>\<close>

datatype info =
    Updating_description str str str
  | Updating_symbol str str str

record merge_state =
  master_data :: inventory
  changes :: "change list"
  errors :: "conflict list"
  printed :: "info list"

text \<open>
  \<open>if not existing[f] and new_part[f]: existing[f] = new_part[f]; updated = True\<close>,
  for the field read by \<open>get\<close> and written by \<open>upd\<close>. The pair is the record
  \<open>existing\<close> and the flag \<open>updated\<close>.
\<close>

definition fill_blank ::
  "(part \<Rightarrow> str) \<Rightarrow> ((str \<Rightarrow> str) \<Rightarrow> part \<Rightarrow> part) \<Rightarrow> part \<Rightarrow> part \<times> bool \<Rightarrow> part \<times> bool" where
  "fill_blank get upd new_part eu =
     (if get (fst eu) = [] \<and> get new_part \<noteq> []
      then (upd (\<lambda>_. get new_part) (fst eu), True)
      else eu)"

text \<open>
  The two "always update to newest" blocks, for \<open>Description\<close> and \<open>Symbol\<close>. The
  third component collects what is printed, made by \<open>msg\<close> from the MPN, the old and
  the new text.
\<close>

definition take_newest ::
  "(part \<Rightarrow> str) \<Rightarrow> ((str \<Rightarrow> str) \<Rightarrow> part \<Rightarrow> part) \<Rightarrow> (str \<Rightarrow> str \<Rightarrow> info) \<Rightarrow> part \<Rightarrow>
     part \<times> bool \<times> info list \<Rightarrow> part \<times> bool \<times> info list" where
  "take_newest get upd msg new_part eup =
     (case eup of (existing, updated, out) \<Rightarrow>
        if get existing \<noteq> get new_part \<and> get new_part \<noteq> []
        then (upd (\<lambda>_. get new_part) existing, True,
              if get existing \<noteq> [] then out @ [msg (get existing) (get new_part)] else out)
        else if get existing = [] \<and> get new_part \<noteq> []
        then (upd (\<lambda>_. get new_part) existing, True, out)
        else (existing, updated, out))"

definition fill_fields :: "part \<Rightarrow> part \<Rightarrow> part \<times> bool" where
  "fill_fields new_part existing =
     (fill_blank Extra Extra_update new_part
     (fill_blank Datasheet Datasheet_update new_part
     (fill_blank Manufacturer Manufacturer_update new_part
     (fill_blank Tolerance Tolerance_update new_part
     (fill_blank Voltage Voltage_update new_part
     (fill_blank Digikey_PN Digikey_PN_update new_part
     (fill_blank Mouser_PN Mouser_PN_update new_part (existing, False))))))))"

definition update_newest :: "str \<Rightarrow> part \<Rightarrow> part \<times> bool \<Rightarrow> part \<times> bool \<times> info list" where
  "update_newest mpn new_part eu =
     take_newest Symbol Symbol_update (Updating_symbol mpn) new_part
       (take_newest Description Description_update (Updating_description mpn) new_part
          (fst eu, snd eu, []))"

text \<open>
  The project block. \<open>list(new_part['Projects'])[0]\<close> raises \<open>IndexError\<close> on an empty
  set. The result is the record, and the entry appended to \<open>changes\<close> if there is one.
\<close>

definition add_project :: "str \<Rightarrow> part \<Rightarrow> part \<times> bool \<Rightarrow> error + part \<times> change list" where
  "add_project mpn new_part eu =
     (case Projects new_part of
        [] \<Rightarrow> Inl IndexError
      | new_proj # _ \<Rightarrow>
          (let existing = fst eu; updated = snd eu in
           if new_proj \<notin> set (Projects existing) then
             (let e1 = existing\<lparr>Projects := Projects existing @ [new_proj]\<rparr>;
                  e2 = (if Last_Used new_part > Last_Used e1
                        then e1\<lparr>Last_Used := Last_Used new_part\<rparr> else e1)
              in Inr (e2, [Added_Project mpn new_proj]))
           else if updated then Inr (existing, [Filled_Missing mpn])
           else Inr (existing, [])))"

text \<open>One turn of the loop \<open>for mpn, new_part in new_data.items()\<close>.\<close>

definition merge_step :: "merge_state \<Rightarrow> str \<times> part \<Rightarrow> error + merge_state" where
  "merge_step st kv =
     (case kv of (mpn, new_part) \<Rightarrow>
      (case map_of (master_data st) mpn of
         Some existing \<Rightarrow>
           if Value existing \<noteq> Value new_part \<or> Footprint existing \<noteq> Footprint new_part
           then Inr (st\<lparr>errors := errors st @
                   [CONFLICT mpn (Value existing) (Footprint existing)
                      (Value new_part) (Footprint new_part)]\<rparr>)
           else
             (case update_newest mpn new_part (fill_fields new_part existing) of
                (e, updated, out) \<Rightarrow>
                  (case add_project mpn new_part (e, updated) of
                     Inl err \<Rightarrow> Inl err
                   | Inr (e', entries) \<Rightarrow>
                       Inr (st\<lparr>master_data := AList.update mpn e' (master_data st),
                               changes := changes st @ entries,
                               printed := printed st @ out\<rparr>)))
       | None \<Rightarrow>
           Inr (st\<lparr>master_data := AList.update mpn new_part (master_data st),
                   changes := changes st @
                     [New_Part (Type new_part) (Value new_part) mpn]\<rparr>)))"

fun merge_loop :: "merge_state \<Rightarrow> (str \<times> part) list \<Rightarrow> error + merge_state" where
  "merge_loop st [] = Inr st"
| "merge_loop st (kv # rest) =
     (case merge_step st kv of
        Inl err \<Rightarrow> Inl err
      | Inr st' \<Rightarrow> merge_loop st' rest)"

text \<open>
  \<open>merge_data\<close> mutates \<open>master_data\<close> in place and returns \<open>(changes, errors)\<close>; the
  model returns the final state, which holds all three.
\<close>

definition merge_data :: "inventory \<Rightarrow> (str \<times> part) list \<Rightarrow> error + merge_state" where
  "merge_data master new_data =
     merge_loop \<lparr>master_data = master, changes = [], errors = [], printed = []\<rparr> new_data"

section \<open>The block extractor: \<open>get_balanced_block\<close>\<close>

text \<open>
  The \<open>for\<close> loop over \<open>range(start_index, len(text))\<close> with its two variables
  \<open>depth\<close> and \<open>in_string\<close>; \<open>continue\<close> is the call for the next index, and
  running off the end of the range returns \<open>len(text)\<close>. The start index is a natural
  number: the source only passes results of \<open>find\<close> and of match positions.
\<close>

function get_balanced_loop :: "str \<Rightarrow> nat \<Rightarrow> int \<Rightarrow> bool \<Rightarrow> nat" where
  "get_balanced_loop text i depth in_string =
     (if i < length text then
        (let char = text ! i in
         if char = of_char CHR ''\"'' \<and> (i = 0 \<or> text ! (i - 1) \<noteq> of_char CHR 0x5C)
         then get_balanced_loop text (i + 1) depth (\<not> in_string)
         else if in_string then get_balanced_loop text (i + 1) depth in_string
         else if char = of_char CHR ''(''
         then get_balanced_loop text (i + 1) (depth + 1) in_string
         else if char = of_char CHR '')''
         then (if depth - 1 = 0 then i
               else get_balanced_loop text (i + 1) (depth - 1) in_string)
         else get_balanced_loop text (i + 1) depth in_string)
      else length text)"
  by pat_completeness auto
termination
  by (relation "measure (\<lambda>(text, i, depth, in_string). length text - i)") auto

declare get_balanced_loop.simps [simp del]

definition get_balanced_block :: "str \<Rightarrow> nat \<Rightarrow> nat" where
  "get_balanced_block text start_index = get_balanced_loop text start_index 0 False"

text \<open>
  The words of the specification, to compare the loop with. A quote that is not preceded
  by a backslash opens or closes a string literal; a position is inside a literal when
  an odd number of such quotes lies between the start and it; a delimiter counts when it
  is outside every literal; the nesting depth after the first \<open>n\<close> positions is the
  number of counted opening delimiters minus the number of counted closing ones; a
  closing delimiter closes the block when it counts and brings the depth to zero.
\<close>

definition unescaped_quote :: "str \<Rightarrow> nat \<Rightarrow> bool" where
  "unescaped_quote text i \<longleftrightarrow>
     text ! i = of_char CHR ''\"'' \<and> (i = 0 \<or> text ! (i - 1) \<noteq> of_char CHR 0x5C)"

definition inside_string :: "str \<Rightarrow> nat \<Rightarrow> nat \<Rightarrow> bool" where
  "inside_string text start i \<longleftrightarrow> odd (length (filter (unescaped_quote text) [start..<i]))"

definition counted :: "str \<Rightarrow> nat \<Rightarrow> char \<Rightarrow> nat \<Rightarrow> bool" where
  "counted text start c i \<longleftrightarrow>
     text ! i = of_char c \<and> \<not> unescaped_quote text i \<and> \<not> inside_string text start i"

definition depth_upto :: "str \<Rightarrow> nat \<Rightarrow> nat \<Rightarrow> int" where
  "depth_upto text start n =
     int (length (filter (counted text start CHR ''('') [start..<n])) -
     int (length (filter (counted text start CHR '')'') [start..<n]))"

definition closes_block :: "str \<Rightarrow> nat \<Rightarrow> nat \<Rightarrow> bool" where
  "closes_block text start i \<longleftrightarrow>
     start \<le> i \<and> i < length text \<and> counted text start CHR '')'' i \<and>
     depth_upto text start (Suc i) = 0"

section \<open>Characters, and the string methods the source uses\<close>

text \<open>
  \<open>isspace\<close> is the whitespace of \<open>str.strip\<close>, \<open>str.split\<close> and of \<open>\s\<close> in a
  pattern over \<open>str\<close>: the same 29 code points for all three. \<open>isdecimal\<close> is \<open>\d\<close>
  in a pattern over \<open>str\<close>: the decimal digits of Unicode (category Nd, Unicode 14), which
  come in runs of ten that start at the code points of \<open>decimal_zeros\<close>.
\<close>

definition isspace :: "nat \<Rightarrow> bool" where
  "isspace c \<longleftrightarrow>
     c \<in> set [9, 10, 11, 12, 13, 28, 29, 30, 31, 32, 133, 160, 5760,
               8232, 8233, 8239, 8287, 12288] \<or>
     (8192 \<le> c \<and> c \<le> 8202)"

definition decimal_zeros :: "nat list" where
  "decimal_zeros =
     [48, 1632, 1776, 1984, 2406, 2534, 2662, 2790, 2918, 3046, 3174, 3302, 3430, 3558,
      3664, 3792, 3872, 4160, 4240, 6112, 6160, 6470, 6608, 6784, 6800, 6992, 7088, 7232,
      7248, 42528, 43216, 43264, 43472, 43504, 43600, 44016, 65296, 66720, 68912, 69734,
      69872, 69942, 70096, 70384, 70736, 70864, 71248, 71360, 71472, 71904, 72016, 72784,
      73040, 73120, 92768, 92864, 93008, 120782, 120792, 120802, 120812, 120822, 123200,
      123632, 125264, 130032]"

definition isdecimal :: "nat \<Rightarrow> bool" where
  "isdecimal c \<longleftrightarrow> (\<exists>z \<in> set decimal_zeros. z \<le> c \<and> c < z + 10)"

definition ascii_letter :: "nat \<Rightarrow> bool" where
  "ascii_letter c \<longleftrightarrow> (65 \<le> c \<and> c \<le> 90) \<or> (97 \<le> c \<and> c \<le> 122)"

definition digit_or_dot :: "nat \<Rightarrow> bool" where
  "digit_or_dot c \<longleftrightarrow> (48 \<le> c \<and> c \<le> 57) \<or> c = of_char CHR ''.''"

definition py_strip :: "str \<Rightarrow> str" where
  "py_strip s = rev (dropWhile isspace (rev (dropWhile isspace s)))"

text \<open>\<open>s.split()\<close>: the maximal runs of characters that are not whitespace.\<close>

function py_split :: "str \<Rightarrow> str list" where
  "py_split s =
     (let r = dropWhile isspace s in
      if r = [] then []
      else takeWhile (\<lambda>c. \<not> isspace c) r # py_split (dropWhile (\<lambda>c. \<not> isspace c) r))"
  by pat_completeness auto

lemma py_split_termination:
  assumes "dropWhile isspace s \<noteq> []"
  shows "length (dropWhile (\<lambda>c. \<not> isspace c) (dropWhile isspace s)) < length s"
proof -
  obtain c r where r: "dropWhile isspace s = c # r"
    using assms by (cases "dropWhile isspace s") auto
  then have "\<not> isspace c" using hd_dropWhile[of isspace s] by auto
  with r have "length (dropWhile (\<lambda>c. \<not> isspace c) (dropWhile isspace s)) \<le> length r"
    by (simp add: length_dropWhile_le)
  also have "length r < length (dropWhile isspace s)" using r by simp
  also have "\<dots> \<le> length s" by (rule length_dropWhile_le)
  finally show ?thesis .
qed

termination py_split
  by (relation "measure length") (auto simp: py_split_termination)

declare py_split.simps [simp del]

text \<open>\<open>re.sub(r'\s+', ' ', s)\<close>: every maximal run of whitespace becomes one space.\<close>

function collapse_spaces :: "str \<Rightarrow> str" where
  "collapse_spaces [] = []"
| "collapse_spaces (c # cs) =
     (if isspace c then of_char CHR '' '' # collapse_spaces (dropWhile isspace cs)
      else c # collapse_spaces cs)"
  by pat_completeness auto
termination
  by (relation "measure length") (auto simp: le_imp_less_Suc length_dropWhile_le)

text \<open>\<open>' '.join(parts)\<close>.\<close>

fun join_spaces :: "str list \<Rightarrow> str" where
  "join_spaces [] = []"
| "join_spaces [t] = t"
| "join_spaces (t # ts) = t @ of_char CHR '' '' # join_spaces ts"

text \<open>\<open>s.upper()\<close>, on the ASCII letters it is applied to.\<close>

definition py_upper :: "str \<Rightarrow> str" where
  "py_upper s = map (\<lambda>c. if 97 \<le> c \<and> c \<le> 122 then c - 32 else c) s"

text \<open>\<open>needle in s\<close> and \<open>s.find(needle)\<close> (\<open>None\<close> for \<open>-1\<close>).\<close>

fun py_find :: "str \<Rightarrow> str \<Rightarrow> nat option" where
  "py_find needle [] = (if needle = [] then Some 0 else None)"
| "py_find needle (c # cs) =
     (if take (length needle) (c # cs) = needle then Some 0
      else map_option Suc (py_find needle cs))"

definition py_in :: "str \<Rightarrow> str \<Rightarrow> bool" where
  "py_in needle s \<longleftrightarrow> py_find needle s \<noteq> None"

section \<open>Field values\<close>

definition VALUE_PARSE_TYPES :: "str list" where
  "VALUE_PARSE_TYPES =
     [str ''R'', str ''C'', str ''L'', str ''D'', str ''BT'', str ''F'', str ''FB'',
      str ''Y'', str ''Z'']"

definition clean_field_value :: "str \<Rightarrow> str" where
  "clean_field_value value =
     (let cleaned = py_strip value in
      if cleaned \<in> set [str ''~'', str ''-''] then [] else cleaned)"

subsection \<open>\<open>extract_voltage\<close>\<close>

text \<open>
  \<open>\d+\.?\d*\<close> at the start of a string: the text it matches and what follows. The
  match is the greedy one. In each pattern of the source this piece is followed by a
  character that is neither a digit nor a dot (\<open>V\<close>, a multiplier letter) or by the end,
  so that no shorter match of the piece can make the pattern succeed where the greedy one
  fails.
\<close>

definition match_number :: "str \<Rightarrow> (str \<times> str) option" where
  "match_number s =
     (let d1 = takeWhile isdecimal s; r1 = dropWhile isdecimal s in
      if d1 = [] then None
      else (case r1 of
              [] \<Rightarrow> Some (d1, [])
            | c # r2 \<Rightarrow>
                if c = of_char CHR ''.''
                then Some (d1 @ c # takeWhile isdecimal r2, dropWhile isdecimal r2)
                else Some (d1, r1)))"

text \<open>
  \<open>voltage_pattern = r'\s*(\d+\.?\d*V)\s*'\<close> at the start of a string: group 1 and
  what follows the match.
\<close>

definition match_voltage :: "str \<Rightarrow> (str \<times> str) option" where
  "match_voltage s =
     (case match_number (dropWhile isspace s) of
        None \<Rightarrow> None
      | Some (num, r) \<Rightarrow>
          (case r of
             [] \<Rightarrow> None
           | c # r' \<Rightarrow>
               if c = of_char CHR ''V'' then Some (num @ [c], dropWhile isspace r')
               else None))"

text \<open>
  \<open>re.search(voltage_pattern, s)\<close>: the leftmost position where the pattern matches.
  The result is the text before the match, group 1, and the text after the match.
\<close>

fun search_voltage :: "str \<Rightarrow> (str \<times> str \<times> str) option" where
  "search_voltage [] = None"
| "search_voltage (c # cs) =
     (case match_voltage (c # cs) of
        Some (v, r) \<Rightarrow> Some ([], v, r)
      | None \<Rightarrow>
          (case search_voltage cs of
             Some (p, v, r) \<Rightarrow> Some (c # p, v, r)
           | None \<Rightarrow> None))"

lemma match_number_length:
  assumes "match_number s = Some (num, r)"
  shows "length r < length s"
proof -
  define d1 where "d1 = takeWhile isdecimal s"
  define r1 where "r1 = dropWhile isdecimal s"
  have m: "match_number s =
     (if d1 = [] then None
      else (case r1 of [] \<Rightarrow> Some (d1, [])
            | c # r2 \<Rightarrow> if c = of_char CHR ''.''
                then Some (d1 @ c # takeWhile isdecimal r2, dropWhile isdecimal r2)
                else Some (d1, r1)))"
    unfolding match_number_def d1_def r1_def Let_def ..
  have "length d1 + length r1 = length s"
    unfolding d1_def r1_def by (metis length_append takeWhile_dropWhile_id)
  moreover from assms m have d: "d1 \<noteq> []" by (auto split: if_splits)
  ultimately have l: "length r1 < length s" by (cases d1) auto
  show ?thesis
  proof (cases r1)
    case Nil
    with assms m d have "r = []" by auto
    with l show ?thesis by (cases s) auto
  next
    case (Cons c r2)
    have "length (dropWhile isdecimal r2) \<le> length r2" by (rule length_dropWhile_le)
    with assms m d l Cons show ?thesis by (auto split: if_splits)
  qed
qed

lemma match_voltage_length:
  assumes "match_voltage s = Some (v, r)"
  shows "length r < length s"
proof -
  from assms obtain num c r' where
    m: "match_number (dropWhile isspace s) = Some (num, c # r')" and r: "r = dropWhile isspace r'"
    by (auto simp: match_voltage_def split: option.splits list.splits if_splits)
  have "length r \<le> length r'" using r by (simp add: length_dropWhile_le)
  also have "\<dots> < length (dropWhile isspace s)" using match_number_length[OF m] by simp
  also have "\<dots> \<le> length s" by (rule length_dropWhile_le)
  finally show ?thesis .
qed

lemma search_voltage_length:
  "search_voltage s = Some (p, v, r) \<Longrightarrow> length r < length s"
proof (induction s arbitrary: p)
  case Nil
  then show ?case by simp
next
  case (Cons c cs)
  show ?case
  proof (cases "match_voltage (c # cs)")
    case (Some a)
    with Cons.prems match_voltage_length[of "c # cs" v r] show ?thesis
      by (cases a) auto
  next
    case None
    with Cons.prems obtain p' where "search_voltage cs = Some (p', v, r)"
      by (auto split: option.splits)
    from Cons.IH[OF this] show ?thesis by simp
  qed
qed

text \<open>\<open>re.sub(voltage_pattern, ' ', s)\<close>: every match, left to right, becomes one space.\<close>

function sub_voltage :: "str \<Rightarrow> str" where
  "sub_voltage s =
     (case search_voltage s of
        None \<Rightarrow> s
      | Some (p, v, r) \<Rightarrow> p @ of_char CHR '' '' # sub_voltage r)"
  by pat_completeness auto
termination
  by (relation "measure length") (auto simp: search_voltage_length)

declare sub_voltage.simps [simp del]

definition extract_voltage :: "str \<Rightarrow> str \<times> str" where
  "extract_voltage value_str =
     (if value_str = [] then (value_str, [])
      else (case search_voltage value_str of
              Some (p, voltage, r) \<Rightarrow>
                (collapse_spaces (py_strip (sub_voltage value_str)), voltage)
            | None \<Rightarrow> (value_str, [])))"

subsection \<open>\<open>normalize_value\<close>\<close>

text \<open>
  A literal character of a pattern compiled with \<open>re.IGNORECASE\<close> matches the
  characters whose lower case is its own lower case, and the few others that the
  \<open>re\<close> module adds. For the letters of \<open>units_to_strip\<close> and for \<open>R\<close> these are the
  two cases of the letter, and besides: the Kelvin sign for \<open>k\<close>, the long s for \<open>s\<close>,
  and small omega and the ohm sign for \<open>\<Omega>\<close>. \<open>ignorecase_eq p c\<close>: the pattern
  character \<open>p\<close> matches \<open>c\<close>.
\<close>

definition ignorecase_eq :: "nat \<Rightarrow> nat \<Rightarrow> bool" where
  "ignorecase_eq p c \<longleftrightarrow>
     (if ascii_letter p then
        c = p \<or> (p \<le> 90 \<and> c = p + 32) \<or> (97 \<le> p \<and> c = p - 32) \<or>
        (p \<in> set [75, 107] \<and> c = 8490) \<or> (p \<in> set [83, 115] \<and> c = 383)
      else if p \<in> set [937, 969, 8486] then c \<in> set [937, 969, 8486]
      else c = p)"

text \<open>
  \<open>units_to_strip\<close>, in the order of the source. The first entry is the capital omega
  (code point 937).
\<close>

definition units_to_strip :: "str list" where
  "units_to_strip =
     [[937], str ''Ohm'', str ''ohms'', str ''ohm'', str ''F'', str ''uF'', str ''nF'',
      str ''pF'', str ''H'', str ''uH'', str ''nH'', str ''mH'', str ''Hz'', str ''kHz'',
      str ''MHz'']"

text \<open>
  \<open>re.sub(re.escape(unit) + r'$', '', working_str, flags=re.IGNORECASE)\<close>. The pattern
  can match only where the unit ends the string, so at most once. (\<open>$\<close> also matches
  before a line feed that ends the string; \<open>working_str\<close> is part of a result of
  \<open>split\<close> and holds no line feed.)
\<close>

definition strip_unit :: "str \<Rightarrow> str \<Rightarrow> str" where
  "strip_unit working_str unit =
     (let n = length working_str - length unit in
      if length unit \<le> length working_str \<and>
         list_all2 ignorecase_eq unit (drop n working_str)
      then take n working_str else working_str)"

definition strip_units :: "str \<Rightarrow> str" where
  "strip_units numeric_part = foldl strip_unit numeric_part units_to_strip"

text \<open>The letters of \<open>[pnu\<mu>mkKMG]\<close>; \<open>\<mu>\<close> is the micro sign, code point 181.\<close>

definition multiplier_letters :: "nat list" where
  "multiplier_letters = [112, 110, 117, 181, 109, 107, 75, 77, 71]"

text \<open>
  \<open>if mult == '\<mu>': mult = 'u' elif mult == 'K': mult = 'k'\<close>; the variable
  \<open>mult\<close> of the source is \<open>mult_ch\<close> here.
\<close>

definition normalize_mult :: "nat \<Rightarrow> nat" where
  "normalize_mult mult_ch =
     (if mult_ch = 181 then of_char CHR ''u''
      else if mult_ch = of_char CHR ''K'' then of_char CHR ''k'' else mult_ch)"

text \<open>
  The patterns, each against a whole string, with the groups they capture.
  \<open>match_mult\<close> is \<open>^(\d+\.?\d*)([pnu\<mu>mkKMG])$\<close>, \<open>match_mid\<close> is
  \<open>^(\d+)([pnu\<mu>mkKMG])(\d+)$\<close>, \<open>match_r\<close> is \<open>^(\d+)R(\d*)$\<close> with
  \<open>re.IGNORECASE\<close>, \<open>match_plain\<close> is \<open>^(\d+\.?\d*)$\<close>.
\<close>

definition match_mult :: "str \<Rightarrow> (str \<times> nat) option" where
  "match_mult s =
     (case match_number s of
        Some (num, [mult_ch]) \<Rightarrow> if mult_ch \<in> set multiplier_letters then Some (num, mult_ch) else None
      | _ \<Rightarrow> None)"

definition match_mid :: "str \<Rightarrow> (str \<times> nat \<times> str) option" where
  "match_mid s =
     (let main = takeWhile isdecimal s in
      case dropWhile isdecimal s of
        [] \<Rightarrow> None
      | mult_ch # dec \<Rightarrow>
          if main \<noteq> [] \<and> mult_ch \<in> set multiplier_letters \<and> dec \<noteq> [] \<and> list_all isdecimal dec
          then Some (main, mult_ch, dec) else None)"

definition match_r :: "str \<Rightarrow> (str \<times> str) option" where
  "match_r s =
     (let main = takeWhile isdecimal s in
      case dropWhile isdecimal s of
        [] \<Rightarrow> None
      | c # dec \<Rightarrow>
          if main \<noteq> [] \<and> ignorecase_eq (of_char CHR ''R'') c \<and> list_all isdecimal dec
          then Some (main, dec) else None)"

definition match_plain :: "str \<Rightarrow> bool" where
  "match_plain s \<longleftrightarrow> (case match_number s of Some (num, []) \<Rightarrow> True | _ \<Rightarrow> False)"

text \<open>
  The four formats tried in order on \<open>working_str\<close>: the normalized numeric part, or
  \<open>None\<close> when none of them matches.
\<close>

definition normalize_numeric :: "str \<Rightarrow> str option" where
  "normalize_numeric working_str =
     (case match_mult working_str of
        Some (num, mult_ch) \<Rightarrow> Some (num @ [normalize_mult mult_ch])
      | None \<Rightarrow>
     (case match_mid working_str of
        Some (main, mult_ch, dec) \<Rightarrow>
          Some (main @ of_char CHR ''.'' # dec @ [normalize_mult mult_ch])
      | None \<Rightarrow>
     (case match_r working_str of
        Some (main, dec) \<Rightarrow>
          if dec \<noteq> [] then Some (main @ of_char CHR ''.'' # dec @ [of_char CHR ''R''])
          else Some (main @ [of_char CHR ''R''])
      | None \<Rightarrow>
     (if match_plain working_str then Some working_str else None))))"

text \<open>\<open>f"{normalized} {suffix}".strip() if suffix else normalized\<close>.\<close>

definition with_suffix :: "str \<Rightarrow> str \<Rightarrow> str" where
  "with_suffix normalized suffix =
     (if suffix \<noteq> [] then py_strip (normalized @ of_char CHR '' '' # suffix) else normalized)"

definition normalize_value :: "str \<Rightarrow> str \<Rightarrow> str" where
  "normalize_value value_str component_type =
     (if value_str = [] \<or> component_type \<notin> set VALUE_PARSE_TYPES then value_str
      else
        (let value_str = collapse_spaces (py_strip value_str) in
         case py_split value_str of
           [] \<Rightarrow> value_str
         | numeric_part # rest \<Rightarrow>
             (let suffix = (if length (numeric_part # rest) > 1 then join_spaces rest else []) in
              case normalize_numeric (strip_units numeric_part) of
                Some normalized \<Rightarrow> with_suffix normalized suffix
              | None \<Rightarrow> value_str)))"

subsection \<open>The numeric projections\<close>

text \<open>
  Floating-point numbers are not modelled. The functions below take the operations on
  \<open>float\<close> they use as a parameter, over any type of numbers: \<open>py_float\<close> is
  \<open>float(s)\<close>, with \<open>None\<close> for \<open>ValueError\<close>; \<open>py_mul\<close> is the product; \<open>py_lit\<close>
  is the value of a float literal of the source, given by its text.
\<close>

record 'f float_ops =
  py_float :: "str \<Rightarrow> 'f option"
  py_mul :: "'f \<Rightarrow> 'f \<Rightarrow> 'f"
  py_lit :: "string \<Rightarrow> 'f"

text \<open>The dictionary \<open>multipliers\<close> of \<open>parse_value_to_float\<close>, values by their text.\<close>

definition multipliers :: "(nat \<times> string) list" where
  "multipliers =
     [(112, ''1e-12''), (110, ''1e-9''), (117, ''1e-6''), (181, ''1e-6''), (109, ''1e-3''),
      (107, ''1e3''), (75, ''1e3''), (77, ''1e6''), (71, ''1e9'')]"

text \<open>
  \<open>^([0-9\.]+)([pnu\<mu>mkKMG]?)$\<close>: the number, and the multiplier letter if there is
  one.
\<close>

definition match_value :: "str \<Rightarrow> (str \<times> nat option) option" where
  "match_value s =
     (let num = takeWhile digit_or_dot s in
      if num = [] then None
      else (case dropWhile digit_or_dot s of
              [] \<Rightarrow> Some (num, None)
            | [mult_ch] \<Rightarrow> if mult_ch \<in> set multiplier_letters then Some (num, Some mult_ch) else None
            | _ \<Rightarrow> None))"

text \<open>
  The three attempts of \<open>parse_value_to_float\<close> on the first token \<open>s\<close>. Each returns
  \<open>None\<close> where the source goes on to the next attempt: the pattern does not match, or
  \<open>float\<close> raises \<open>ValueError\<close>.
\<close>

definition try_value :: "'f float_ops \<Rightarrow> str \<Rightarrow> 'f option" where
  "try_value ops s =
     (case match_value s of
        None \<Rightarrow> None
      | Some (num, mult_ch) \<Rightarrow>
          (case py_float ops num of
             None \<Rightarrow> None
           | Some val \<Rightarrow>
               (case mult_ch of
                  None \<Rightarrow> Some val
                | Some m \<Rightarrow>
                    (case map_of multipliers m of
                       Some x \<Rightarrow> Some (py_mul ops val (py_lit ops x))
                     | None \<Rightarrow> Some val))))"

definition try_mid :: "'f float_ops \<Rightarrow> str \<Rightarrow> 'f option" where
  "try_mid ops s =
     (case match_mid s of
        None \<Rightarrow> None
      | Some (main, mult_ch, dec) \<Rightarrow>
          (case py_float ops (main @ of_char CHR ''.'' # dec) of
             None \<Rightarrow> None
           | Some val \<Rightarrow>
               (case map_of multipliers mult_ch of
                  Some x \<Rightarrow> Some (py_mul ops val (py_lit ops x))
                | None \<Rightarrow> Some val)))"

definition try_r :: "'f float_ops \<Rightarrow> str \<Rightarrow> 'f option" where
  "try_r ops s =
     (case match_r s of
        None \<Rightarrow> None
      | Some (main, dec) \<Rightarrow>
          if dec \<noteq> [] then py_float ops (main @ of_char CHR ''.'' # dec)
          else py_float ops main)"

text \<open>
  \<open>value_str.split()[0]\<close> raises \<open>IndexError\<close> when \<open>split\<close> returns the empty list.
\<close>

definition parse_value_to_float :: "'f float_ops \<Rightarrow> str \<Rightarrow> error + 'f" where
  "parse_value_to_float ops value_str =
     (if value_str = [] then Inr (py_lit ops ''0.0'')
      else (case py_split value_str of
              [] \<Rightarrow> Inl IndexError
            | s # _ \<Rightarrow>
                (case try_value ops s of
                   Some val \<Rightarrow> Inr val
                 | None \<Rightarrow>
                (case try_mid ops s of
                   Some val \<Rightarrow> Inr val
                 | None \<Rightarrow>
                (case try_r ops s of
                   Some val \<Rightarrow> Inr val
                 | None \<Rightarrow> Inr (py_lit ops ''0.0''))))))"

text \<open>\<open>re.search(r'([0-9\.]+)', volt_str)\<close> is the first run of digits and dots.\<close>

definition parse_voltage_to_float :: "'f float_ops \<Rightarrow> str \<Rightarrow> 'f" where
  "parse_voltage_to_float ops volt_str =
     (if volt_str = [] then py_lit ops ''0.0''
      else (let r = dropWhile (\<lambda>c. \<not> digit_or_dot c) volt_str in
            if r = [] then py_lit ops ''0.0''
            else (case py_float ops (takeWhile digit_or_dot r) of
                    Some val \<Rightarrow> val
                  | None \<Rightarrow> py_lit ops ''0.0'')))"

subsection \<open>Reference designators\<close>

text \<open>\<open>re.match(r'([A-Za-z]+)', refdes)\<close>, upper-cased, or \<open>ZZ\<close>.\<close>

definition get_designator_type :: "str \<Rightarrow> str" where
  "get_designator_type refdes =
     (let letters = takeWhile ascii_letter refdes in
      if letters \<noteq> [] then py_upper letters else str ''ZZ'')"

text \<open>\<open>re.match(r'([A-Za-z]+\d+)', refdes)\<close>, or \<open>refdes\<close> itself.\<close>

definition strip_designator_suffix :: "str \<Rightarrow> str" where
  "strip_designator_suffix refdes =
     (let letters = takeWhile ascii_letter refdes;
          digits = takeWhile isdecimal (dropWhile ascii_letter refdes) in
      if letters \<noteq> [] \<and> digits \<noteq> [] then letters @ digits else refdes)"

section \<open>The record parser: \<open>parse_schematic_file\<close>\<close>

text \<open>
  A marker of the form \<open>\(name\s+val\<close>, as in \<open>\(dnp\s+yes\)\<close>: \<open>name\<close>, at least
  one whitespace character, \<open>val\<close>. \<open>marker_at\<close> is the match at the start of a string,
  \<open>has_marker\<close> is \<open>re.search\<close>.
\<close>

definition marker_at :: "str \<Rightarrow> str \<Rightarrow> str \<Rightarrow> bool" where
  "marker_at name val s \<longleftrightarrow>
     take (length name) s = name \<and>
     (case drop (length name) s of
        [] \<Rightarrow> False
      | c # r \<Rightarrow> isspace c \<and> take (length val) (dropWhile isspace r) = val)"

fun has_marker :: "str \<Rightarrow> str \<Rightarrow> str \<Rightarrow> bool" where
  "has_marker name val [] = False"
| "has_marker name val (c # cs) \<longleftrightarrow> marker_at name val (c # cs) \<or> has_marker name val cs"

definition should_exclude_component :: "str \<Rightarrow> bool" where
  "should_exclude_component block_text \<longleftrightarrow>
     has_marker (str ''(dnp'') (str ''yes)'') block_text \<or>
     has_marker (str ''(in_bom'') (str ''no)'') block_text \<or>
     has_marker (str ''(on_board'') (str ''no)'') block_text"

text \<open>
  \<open>\s+"([^"]+)"\<close> at the start of a string: whitespace, then a quoted text that is not
  empty. The result is the text and what follows the closing quote.
\<close>

definition match_quoted :: "str \<Rightarrow> (str \<times> str) option" where
  "match_quoted s =
     (case s of
        [] \<Rightarrow> None
      | c # r \<Rightarrow>
          if \<not> isspace c then None
          else (case dropWhile isspace r of
                  [] \<Rightarrow> None
                | q # r2 \<Rightarrow>
                    if q \<noteq> of_char CHR ''\"'' then None
                    else (let key = takeWhile (\<lambda>c. c \<noteq> of_char CHR ''\"'') r2 in
                          case dropWhile (\<lambda>c. c \<noteq> of_char CHR ''\"'') r2 of
                            [] \<Rightarrow> None
                          | _ # r3 \<Rightarrow> if key = [] then None else Some (key, r3))))"

text \<open>
  \<open>\(lib_id\s+"([^"]+)"\<close>: \<open>match_lib_id\<close> at the start of a string,
  \<open>extract_lib_id\<close> by \<open>re.search\<close>, with the empty string when nothing matches.
\<close>

definition match_lib_id :: "str \<Rightarrow> str option" where
  "match_lib_id s =
     (if take 7 s = str ''(lib_id'' then map_option fst (match_quoted (drop 7 s)) else None)"

fun extract_lib_id :: "str \<Rightarrow> str" where
  "extract_lib_id [] = []"
| "extract_lib_id (c # cs) =
     (case match_lib_id (c # cs) of Some v \<Rightarrow> v | None \<Rightarrow> extract_lib_id cs)"

text \<open>
  \<open>((?:[^"\\]|\\.)*)\<close> at the start of a string: characters other than the quote and
  the backslash, and pairs of a backslash and a character that is not a line feed (the
  dot of a pattern does not match a line feed). The result is the text matched and what
  follows it.
\<close>

fun scan_value :: "str \<Rightarrow> str \<times> str" where
  "scan_value [] = ([], [])"
| "scan_value [c] =
     (if c = of_char CHR ''\"'' \<or> c = of_char CHR 0x5C then ([], [c]) else ([c], []))"
| "scan_value (c # d # ds) =
     (if c = of_char CHR ''\"'' then ([], c # d # ds)
      else if c = of_char CHR 0x5C then
        (if d = 10 then ([], c # d # ds)
         else (case scan_value ds of (v, r) \<Rightarrow> (c # d # v, r)))
      else (case scan_value (d # ds) of (v, r) \<Rightarrow> (c # v, r)))"

text \<open>
  \<open>\(property\s+"([^"]+)"\s+"((?:[^"\\]|\\.)*)"\<close> at the start of a string: the two
  groups and what follows the match.
\<close>

definition match_property :: "str \<Rightarrow> (str \<times> str \<times> str) option" where
  "match_property s =
     (if take 9 s \<noteq> str ''(property'' then None
      else (case match_quoted (drop 9 s) of
              None \<Rightarrow> None
            | Some (key, r) \<Rightarrow>
                (case r of
                   [] \<Rightarrow> None
                 | c # r1 \<Rightarrow>
                     if \<not> isspace c then None
                     else (case dropWhile isspace r1 of
                             [] \<Rightarrow> None
                           | q # r2 \<Rightarrow>
                               if q \<noteq> of_char CHR ''\"'' then None
                               else (case scan_value r2 of
                                       (v, []) \<Rightarrow> None
                                     | (v, q' # r3) \<Rightarrow>
                                         if q' = of_char CHR ''\"'' then Some (key, v, r3)
                                         else None)))))"

lemma match_quoted_length:
  assumes "match_quoted s = Some (key, r)"
  shows "length r < length s"
proof -
  from assms obtain c r1 q r2 x where s: "s = c # r1" and d: "dropWhile isspace r1 = q # r2"
    and e: "dropWhile (\<lambda>c. c \<noteq> of_char CHR ''\"'') r2 = x # r"
    by (auto simp: match_quoted_def Let_def split: list.splits if_splits)
  have "length (x # r) \<le> length r2" unfolding e[symmetric] by (rule length_dropWhile_le)
  moreover have "length (q # r2) \<le> length r1" unfolding d[symmetric] by (rule length_dropWhile_le)
  ultimately show ?thesis using s by simp
qed

lemma scan_value_length: "scan_value s = (v, r) \<Longrightarrow> length r \<le> length s"
proof (induction s arbitrary: v r rule: scan_value.induct)
  case 1
  then show ?case by simp
next
  case (2 c)
  then show ?case by (auto split: if_splits)
next
  case (3 c d ds)
  show ?case
  proof (cases "c = of_char CHR ''\"''")
    case True
    with "3.prems" show ?thesis by simp
  next
    case nq: False
    show ?thesis
    proof (cases "c = of_char CHR 0x5C")
      case True
      show ?thesis
      proof (cases "d = 10")
        case True
        with \<open>c = of_char CHR 0x5C\<close> "3.prems" show ?thesis by simp
      next
        case False
        obtain v' r' where e: "scan_value ds = (v', r')" by (cases "scan_value ds")
        from "3.IH"(1)[OF nq True False e] have "length r' \<le> length ds" .
        with e nq True False "3.prems" show ?thesis by simp
      qed
    next
      case False
      obtain v' r' where e: "scan_value (d # ds) = (v', r')" by (cases "scan_value (d # ds)")
      from "3.IH"(2)[OF nq False e] have "length r' \<le> length (d # ds)" .
      with e nq False "3.prems" show ?thesis by simp
    qed
  qed
qed

lemma match_property_length:
  assumes "match_property s = Some (key, v, r)"
  shows "length r < length s"
proof -
  from assms obtain r0 c r1 q r2 q' where
    m: "match_quoted (drop 9 s) = Some (key, r0)" and r0: "r0 = c # r1"
    and d: "dropWhile isspace r1 = q # r2" and v: "scan_value r2 = (v, q' # r)"
    by (auto simp: match_property_def split: option.splits list.splits if_splits prod.splits)
  have "length (q' # r) \<le> length r2" using scan_value_length[OF v] .
  moreover have "length (q # r2) \<le> length r1" unfolding d[symmetric] by (rule length_dropWhile_le)
  moreover have "length r0 < length (drop 9 s)" using match_quoted_length[OF m] .
  ultimately show ?thesis using r0 by simp
qed

text \<open>
  \<open>re.findall\<close> of the property pattern: the matches left to right, each search
  starting where the previous match ended.
\<close>

function findall_property :: "str \<Rightarrow> (str \<times> str) list" where
  "findall_property [] = []"
| "findall_property (c # cs) =
     (case match_property (c # cs) of
        Some (key, v, r) \<Rightarrow> (key, v) # findall_property r
      | None \<Rightarrow> findall_property cs)"
  by pat_completeness auto
termination
  by (relation "measure length") (auto dest: match_property_length)

text \<open>
  A property dictionary, in insertion order. \<open>dict_of\<close> is the comprehension
  \<open>{k: v for k, v in props_list}\<close>, where a later pair replaces the value of an earlier
  one with the same key; \<open>dict_get\<close> is \<open>props.get(key, "")\<close>.
\<close>

type_synonym props = "(str \<times> str) list"

definition dict_of :: "(str \<times> str) list \<Rightarrow> props" where
  "dict_of props_list = foldl (\<lambda>d kv. AList.update (fst kv) (snd kv) d) [] props_list"

definition dict_get :: "props \<Rightarrow> str \<Rightarrow> str" where
  "dict_get d key = (case map_of d key of Some v \<Rightarrow> v | None \<Rightarrow> [])"

text \<open>
  The body of the loop over \<open>symbol_indices\<close>. \<open>block_props\<close> is the part up to the
  assignment of \<open>_lib_id\<close>: \<open>None\<close> where the source says \<open>continue\<close>. \<open>parse_block\<close>
  adds the deduplication by \<open>base_refdes\<close> on the dictionary \<open>components\<close>.
\<close>

definition block_props :: "str \<Rightarrow> props option" where
  "block_props block_text =
     (if \<not> py_in (str ''(lib_id'') block_text then None
      else if should_exclude_component block_text then None
      else (let props = dict_of (findall_property block_text);
                refdes = dict_get props (str ''Reference'') in
            if refdes = [] then None
            else if take 1 refdes = str ''#'' then None
            else Some (AList.update (str ''_lib_id'') (extract_lib_id block_text) props)))"

definition parse_block :: "str \<Rightarrow> (str \<times> props) list \<Rightarrow> nat \<Rightarrow> (str \<times> props) list" where
  "parse_block content components start_idx =
     (let end_idx = get_balanced_block content start_idx;
          block_text = take (end_idx + 1 - start_idx) (drop start_idx content) in
      case block_props block_text of
        None \<Rightarrow> components
      | Some props \<Rightarrow>
          (let base_refdes = strip_designator_suffix (dict_get props (str ''Reference'')) in
           if base_refdes \<notin> fst ` set components
           then AList.update base_refdes props components
           else components))"

text \<open>
  The start of every match of \<open>\(symbol\<close>. The matches of \<open>re.finditer\<close> do not
  overlap; two occurrences of this text never do, since its first character occurs in it
  only once.
\<close>

definition symbol_indices :: "str \<Rightarrow> nat list" where
  "symbol_indices content =
     filter (\<lambda>i. take 7 (drop i content) = str ''(symbol'') [0..<length content]"

text \<open>The removal of the \<open>(lib_symbols ...)\<close> block.\<close>

definition remove_lib_symbols :: "str \<Rightarrow> str" where
  "remove_lib_symbols content =
     (case py_find (str ''(lib_symbols'') content of
        None \<Rightarrow> content
      | Some lib_sym_start \<Rightarrow>
          (let lib_sym_end = get_balanced_block content lib_sym_start in
           take lib_sym_start content @ drop (lib_sym_end + 1) content))"

text \<open>
  \<open>parse_schematic_file\<close>, from the text that was read from the file. The model keeps
  the dictionary \<open>components\<close>, keys and values; the source returns its values.
\<close>

definition parse_components :: "str \<Rightarrow> (str \<times> props) list" where
  "parse_components content0 =
     (let content = remove_lib_symbols content0 in
      foldl (parse_block content) [] (symbol_indices content))"

definition parse_schematic_file :: "str \<Rightarrow> props list" where
  "parse_schematic_file content = map snd (parse_components content)"

text \<open>
  The component instances of a file, to state what the deduplication does: the
  dictionaries of the blocks that pass every test of the loop, in the order of the file.
  \<open>block_at\<close> is \<open>block_text\<close>; \<open>base_id\<close> is \<open>base_refdes\<close>, from the dictionary of
  an instance.
\<close>

definition block_at :: "str \<Rightarrow> nat \<Rightarrow> str" where
  "block_at content start_idx =
     take (get_balanced_block content start_idx + 1 - start_idx) (drop start_idx content)"

definition instances :: "str \<Rightarrow> props list" where
  "instances content0 =
     (let content = remove_lib_symbols content0 in
      List.map_filter (\<lambda>i. block_props (block_at content i)) (symbol_indices content))"

definition base_id :: "props \<Rightarrow> str" where
  "base_id props = strip_designator_suffix (dict_get props (str ''Reference''))"


section \<open>The project scan: \<open>scan_project_folder\<close>\<close>

text \<open>
  The scan reads the directory, the modification times and the clock. The model takes
  them as arguments: the project name, the sheets of the project in the order of
  \<open>os.listdir\<close>, each with its modification time and its text, and a \<open>clock\<close> that
  formats a time stamp as a date (\<open>datetime.fromtimestamp(t).strftime("%Y-%m-%d")\<close>) and
  gives the date of today. Time stamps are rational numbers here; the scan only compares
  them.
\<close>

record clock =
  date_of_timestamp :: "rat \<Rightarrow> str"
  date_now :: str

datatype warning =
    Consistency_Check_Failed str str str str str str str
      \<comment> \<open>MPN; type, value and footprint of the old record; reference, value and
          footprint of the new observation\<close>

record scan_state =
  extracted_parts :: inventory
  latest_mod_time :: rat
  warnings :: "warning list"

text \<open>
  The treatment of \<open>val\<close> and \<open>voltage\<close> for a type of \<open>VALUE_PARSE_TYPES\<close>: the pair
  of the two after it.
\<close>

definition process_value :: "str \<Rightarrow> str \<Rightarrow> str \<Rightarrow> str \<times> str" where
  "process_value comp_type val voltage =
     (if comp_type \<in> set VALUE_PARSE_TYPES then
        (let (val, voltage) =
           (if voltage = [] \<and> val \<noteq> [] then
              (case extract_voltage val of
                 (val', extracted_voltage) \<Rightarrow>
                   (val', if extracted_voltage \<noteq> [] then extracted_voltage else voltage))
            else if voltage \<noteq> [] \<and> val \<noteq> [] then (fst (extract_voltage val), voltage)
            else (val, voltage))
         in (normalize_value val comp_type, voltage))
      else (val, voltage))"

text \<open>
  The body of the loop over \<open>found_components\<close> up to the dictionary \<open>part_data\<close>:
  \<open>None\<close> where the source says \<open>continue\<close>, else \<open>refdes\<close> and \<open>part_data\<close>.
\<close>

definition observe :: "clock \<Rightarrow> str \<Rightarrow> rat \<Rightarrow> props \<Rightarrow> (str \<times> part) option" where
  "observe clk project_name latest props =
     (let refdes = dict_get props (str ''Reference'');
          mpn = clean_field_value (dict_get props (str ''MPN'')) in
      if mpn = [] then None
      else
        (let val = clean_field_value (dict_get props (str ''Value''));
             voltage = clean_field_value (dict_get props (str ''Voltage''));
             footprint = clean_field_value (dict_get props (str ''Footprint''));
             mouser = clean_field_value (dict_get props (str ''Mouser PN''));
             digikey = clean_field_value (dict_get props (str ''Digikey PN''));
             manufacturer = clean_field_value (dict_get props (str ''Manufacturer''));
             tolerance = clean_field_value (dict_get props (str ''Tolerance''));
             extra = clean_field_value (dict_get props (str ''Extra''));
             description = clean_field_value (dict_get props (str ''Description''));
             symbol = clean_field_value (dict_get props (str ''_lib_id''));
             datasheet = clean_field_value (dict_get props (str ''Datasheet'')) in
         if footprint = [] then None
         else
           (let comp_type = get_designator_type refdes;
                (val, voltage) = process_value comp_type val voltage;
                date_str = (if latest > 0 then date_of_timestamp clk latest else date_now clk)
            in Some (refdes,
                 \<lparr>Type = comp_type, Value = val, Voltage = voltage, Tolerance = tolerance,
                  Extra = extra, Footprint = footprint, Stock = [],
                  Manufacturer = manufacturer, MPN = mpn, Digikey_PN = digikey,
                  Mouser_PN = mouser, Description = description, Symbol = symbol,
                  Datasheet = datasheet, Projects = [project_name],
                  Last_Used = date_str\<rparr>))))"

text \<open>One turn of the loop over \<open>found_components\<close>.\<close>

definition scan_component :: "clock \<Rightarrow> str \<Rightarrow> scan_state \<Rightarrow> props \<Rightarrow> scan_state" where
  "scan_component clk project_name st props =
     (case observe clk project_name (latest_mod_time st) props of
        None \<Rightarrow> st
      | Some (refdes, part_data) \<Rightarrow>
          (let mpn = MPN part_data in
           case map_of (extracted_parts st) mpn of
             Some existing \<Rightarrow>
               if Value existing \<noteq> Value part_data \<or> Footprint existing \<noteq> Footprint part_data
               then st\<lparr>warnings := warnings st @
                      [Consistency_Check_Failed mpn (Type existing) (Value existing)
                         (Footprint existing) refdes (Value part_data) (Footprint part_data)]\<rparr>
               else st
           | None \<Rightarrow> st\<lparr>extracted_parts := AList.update mpn part_data (extracted_parts st)\<rparr>))"

text \<open>One turn of the loop over \<open>sch_files\<close>, for a sheet \<open>(mtime, content)\<close>.\<close>

definition scan_sheet :: "clock \<Rightarrow> str \<Rightarrow> scan_state \<Rightarrow> rat \<times> str \<Rightarrow> scan_state" where
  "scan_sheet clk project_name st sheet =
     (let st1 = (if fst sheet > latest_mod_time st then st\<lparr>latest_mod_time := fst sheet\<rparr> else st)
      in foldl (scan_component clk project_name) st1 (parse_schematic_file (snd sheet)))"

definition scan_sheets :: "clock \<Rightarrow> str \<Rightarrow> (rat \<times> str) list \<Rightarrow> scan_state" where
  "scan_sheets clk project_name sheets =
     foldl (scan_sheet clk project_name)
       \<lparr>extracted_parts = [], latest_mod_time = 0, warnings = []\<rparr> sheets"

definition scan_project_folder :: "clock \<Rightarrow> str \<Rightarrow> (rat \<times> str) list \<Rightarrow> inventory" where
  "scan_project_folder clk project_name sheets =
     extracted_parts (scan_sheets clk project_name sheets)"

section \<open>The order of the output rows: \<open>main\<close>\<close>

text \<open>
  The key of \<open>sorted\<close> in \<open>main\<close>, a tuple the rows are compared by. Its second
  component raises when \<open>parse_value_to_float\<close> does.
\<close>

type_synonym 'f row_key = "str \<times> 'f \<times> str \<times> 'f \<times> str \<times> str"

definition row_key :: "'f float_ops \<Rightarrow> part \<Rightarrow> error + 'f row_key" where
  "row_key ops x =
     (case (if Type x \<in> set VALUE_PARSE_TYPES then parse_value_to_float ops (Value x)
            else Inr (py_lit ops ''0.0'')) of
        Inl err \<Rightarrow> Inl err
      | Inr v \<Rightarrow>
          Inr (Type x, v,
               (if Type x \<notin> set VALUE_PARSE_TYPES then Value x else []),
               parse_voltage_to_float ops (Voltage x),
               Footprint x, MPN x))"

text \<open>
  \<open>sorted(rows, key=...)\<close> computes the key of every row, then sorts the rows by their
  keys, keeping the order of rows with equal keys. Tuples compare component by component,
  strings by code points: with the numbers of a linear order, that is the order of the
  product type. \<open>sort_key\<close> is the stable insertion sort of the list library.
\<close>

fun keyed_rows :: "'f float_ops \<Rightarrow> part list \<Rightarrow> error + ('f row_key \<times> part) list" where
  "keyed_rows ops [] = Inr []"
| "keyed_rows ops (x # xs) =
     (case row_key ops x of
        Inl err \<Rightarrow> Inl err
      | Inr k \<Rightarrow>
          (case keyed_rows ops xs of
             Inl err \<Rightarrow> Inl err
           | Inr ks \<Rightarrow> Inr ((k, x) # ks)))"

definition sorted_parts :: "('f::linorder) float_ops \<Rightarrow> inventory \<Rightarrow> error + part list" where
  "sorted_parts ops master =
     (case keyed_rows ops (map snd master) of
        Inl err \<Rightarrow> Inl err
      | Inr ks \<Rightarrow> Inr (map snd (sort_key fst ks)))"

text \<open>
  An instance of the float operations for examples: decimal numerals read as the exact
  rational numbers they denote, without rounding. \<open>float\<close> of a text of ASCII digits
  with at most one dot and at least one digit; other texts are \<open>ValueError\<close> here.
\<close>

definition digits_value :: "str \<Rightarrow> nat" where
  "digits_value ds = foldl (\<lambda>n c. 10 * n + (c - 48)) 0 ds"

definition exact_float :: "str \<Rightarrow> rat option" where
  "exact_float s =
     (let ip = takeWhile (\<lambda>c. c \<noteq> of_char CHR ''.'') s;
          fp = drop 1 (dropWhile (\<lambda>c. c \<noteq> of_char CHR ''.'') s) in
      if list_all (\<lambda>c. 48 \<le> c \<and> c \<le> 57) (ip @ fp) \<and> ip @ fp \<noteq> []
      then Some (of_nat (digits_value (ip @ fp)) / 10 ^ length fp)
      else None)"

definition exact_literal :: "string \<Rightarrow> rat" where
  "exact_literal x =
     (case map_of [(''0.0'', 0), (''1e-12'', 1 / 10 ^ 12), (''1e-9'', 1 / 10 ^ 9),
                   (''1e-6'', 1 / 10 ^ 6), (''1e-3'', 1 / 10 ^ 3), (''1e3'', 10 ^ 3),
                   (''1e6'', 10 ^ 6), (''1e9'', 10 ^ 9)] x of
        Some v \<Rightarrow> v | None \<Rightarrow> 0)"

definition exact_ops :: "rat float_ops" where
  "exact_ops = \<lparr>py_float = exact_float, py_mul = (*), py_lit = exact_literal\<rparr>"

section \<open>The order of the rows, in the words of the specification\<close>

text \<open>
  The numeric component of a row is the numeric projection of its value for a
  value-bearing type and \<open>0.0\<close> for any other; the text component is the empty text for
  a value-bearing type and the raw value for any other. Two rows are in order when the
  first comes before the second by type, then by the numeric component, then by the text
  component, then by the numeric voltage, then by footprint, then by MPN.
\<close>

definition numeric_value :: "'f float_ops \<Rightarrow> part \<Rightarrow> error + 'f" where
  "numeric_value ops x =
     (if Type x \<in> set VALUE_PARSE_TYPES then parse_value_to_float ops (Value x)
      else Inr (py_lit ops ''0.0''))"

definition text_value :: "part \<Rightarrow> str" where
  "text_value x = (if Type x \<in> set VALUE_PARSE_TYPES then [] else Value x)"

definition rows_in_order :: "('f::linorder) float_ops \<Rightarrow> part \<Rightarrow> part \<Rightarrow> bool" where
  "rows_in_order ops a b \<longleftrightarrow>
     (\<exists>va vb. numeric_value ops a = Inr va \<and> numeric_value ops b = Inr vb \<and>
       (Type a < Type b \<or> Type a = Type b \<and>
       (va < vb \<or> va = vb \<and>
       (text_value a < text_value b \<or> text_value a = text_value b \<and>
       (parse_voltage_to_float ops (Voltage a) < parse_voltage_to_float ops (Voltage b) \<or>
        parse_voltage_to_float ops (Voltage a) = parse_voltage_to_float ops (Voltage b) \<and>
       (Footprint a < Footprint b \<or> Footprint a = Footprint b \<and>
        MPN a \<le> MPN b))))))"

section \<open>Tokens and normalized numeric parts\<close>

text \<open>
  Notions for the proofs about \<open>normalize_value\<close>. A token is a text that is not empty
  and holds no whitespace, as \<open>split\<close> returns. A number text is what \<open>\d+\.?\d*\<close>
  matches as a whole. The other three are the shapes of a normalized numeric part: a
  number and a lower-case multiplier letter, digits and \<open>R\<close>, digits, a dot, digits
  and \<open>R\<close>.
\<close>

definition token :: "str \<Rightarrow> bool" where
  "token t \<longleftrightarrow> t \<noteq> [] \<and> (\<forall>c \<in> set t. \<not> isspace c)"

definition number_text :: "str \<Rightarrow> bool" where
  "number_text num \<longleftrightarrow>
     (\<exists>d1. d1 \<noteq> [] \<and> list_all isdecimal d1 \<and>
        (num = d1 \<or> (\<exists>d2. list_all isdecimal d2 \<and> num = d1 @ 46 # d2)))"

definition nf_mult :: "str \<Rightarrow> bool" where
  "nf_mult N \<longleftrightarrow> (\<exists>num m. number_text num \<and> m \<in> set [112, 110, 117, 109, 107, 77, 71] \<and> N = num @ [m])"

definition nf_r :: "str \<Rightarrow> bool" where
  "nf_r N \<longleftrightarrow> (\<exists>main. main \<noteq> [] \<and> list_all isdecimal main \<and> N = main @ [82])"

definition nf_rdec :: "str \<Rightarrow> bool" where
  "nf_rdec N \<longleftrightarrow> (\<exists>main dec. main \<noteq> [] \<and> dec \<noteq> [] \<and> list_all isdecimal main \<and>
     list_all isdecimal dec \<and> N = main @ 46 # dec @ [82])"

section \<open>Voltage texts, in the words of the specification\<close>

text \<open>
  A voltage text is "digits, optional decimal, literal V": a number text followed by
  \<open>V\<close>. A string contains a voltage when a voltage text occurs in it.
  \<open>remove_first_voltage\<close> is the removal that the specification describes, of the first
  match only (\<open>re.sub\<close> with \<open>count=1\<close>), to compare \<open>extract_voltage\<close> with.
\<close>

definition voltage_text :: "str \<Rightarrow> bool" where
  "voltage_text g \<longleftrightarrow> (\<exists>num. number_text num \<and> g = num @ [of_char CHR ''V''])"

definition contains_voltage :: "str \<Rightarrow> bool" where
  "contains_voltage s \<longleftrightarrow> (\<exists>a g b. voltage_text g \<and> s = a @ g @ b)"

definition remove_first_voltage :: "str \<Rightarrow> str" where
  "remove_first_voltage s =
     (case search_voltage s of
        None \<Rightarrow> s
      | Some (p, v, r) \<Rightarrow> p @ of_char CHR '' '' # r)"

section \<open>Example records\<close>

definition part_R1 :: part where
  "part_R1 = \<lparr>Type = str ''R'', Value = str ''4.7k'', Voltage = [], Tolerance = str ''1%'',
     Extra = [], Footprint = str ''0402'', Stock = str ''120'', Manufacturer = [],
     MPN = str ''X1'', Digikey_PN = [], Mouser_PN = str ''M-1'', Description = [],
     Symbol = str ''Device:R'', Datasheet = [], Projects = [str ''amp''],
     Last_Used = str ''2024-01-10''\<rparr>"

definition part_R1_scan :: part where
  "part_R1_scan = \<lparr>Type = str ''R'', Value = str ''4.7k'', Voltage = str ''50V'',
     Tolerance = str ''5%'', Extra = [], Footprint = str ''0402'', Stock = [],
     Manufacturer = str ''Yageo'', MPN = str ''X1'', Digikey_PN = [], Mouser_PN = str ''M-2'',
     Description = str ''Resistor'', Symbol = str ''Device:R'', Datasheet = [],
     Projects = [str ''radio''], Last_Used = str ''2024-03-02''\<rparr>"

definition part_R1_0603 :: part where
  "part_R1_0603 = part_R1_scan\<lparr>Footprint := str ''0603''\<rparr>"

definition block_text :: str where
  "block_text = str ''(a (b \"x)\" ) c) d''"

definition open_text :: str where
  "open_text = str ''(a \"b) ''"

definition example_clock :: clock where
  "example_clock = \<lparr>date_of_timestamp = (\<lambda>t. str ''2024-03-02''), date_now = str ''2025-01-01''\<rparr>"

definition props_R1 :: props where
  "props_R1 = [(str ''Reference'', str ''R1''), (str ''Value'', str ''4k7''),
     (str ''Footprint'', str ''0402''), (str ''MPN'', str ''X1'')]"

definition props_R2 :: props where
  "props_R2 = [(str ''Reference'', str ''R2''), (str ''Value'', str ''4.7k''),
     (str ''Footprint'', str ''0402''), (str ''MPN'', str ''X1''),
     (str ''Mouser PN'', str ''M1''), (str ''Voltage'', str ''50V'')]"

definition part_of_R1 :: part where
  "part_of_R1 = \<lparr>Type = str ''R'', Value = str ''4.7k'', Voltage = [], Tolerance = [],
     Extra = [], Footprint = str ''0402'', Stock = [], Manufacturer = [],
     MPN = str ''X1'', Digikey_PN = [], Mouser_PN = [], Description = [],
     Symbol = [], Datasheet = [], Projects = [str ''radio''],
     Last_Used = str ''2024-03-02''\<rparr>"

definition state_after_R1 :: scan_state where
  "state_after_R1 = \<lparr>extracted_parts = [(str ''X1'', part_of_R1)], latest_mod_time = 5, warnings = []\<rparr>"


definition row_100R :: part where
  "row_100R = part_R1\<lparr>Value := str ''100R'', MPN := str ''X100''\<rparr>"
definition row_4k7 :: part where
  "row_4k7 = part_R1\<lparr>Value := str ''4.7k'', MPN := str ''X4k7''\<rparr>"
definition row_1M :: part where
  "row_1M = part_R1\<lparr>Value := str ''1M'', MPN := str ''X1M''\<rparr>"
definition three_rows :: inventory where
  "three_rows = [(str ''X1M'', row_1M), (str ''X100'', row_100R), (str ''X4k7'', row_4k7)]"


definition block_U1A :: str where
  "block_U1A = str ''(symbol (lib_id \"D:U\") (property \"Reference\" \"U1A\") (property \"MPN\" \"X\"))''"
definition block_U1B :: str where
  "block_U1B = str ''(symbol (lib_id \"D:U\") (property \"Reference\" \"U1B\") (property \"MPN\" \"X\"))''"
definition sheet_U1 :: str where
  "sheet_U1 = block_U1A @ block_U1B"
definition props_U1A :: props where
  "props_U1A = [(str ''Reference'', str ''U1A''), (str ''MPN'', str ''X''), (str ''_lib_id'', str ''D:U'')]"
definition props_U1B :: props where
  "props_U1B = [(str ''Reference'', str ''U1B''), (str ''MPN'', str ''X''), (str ''_lib_id'', str ''D:U'')]"


section \<open>Evaluation of the string functions\<close>

text \<open>
  Equations for computing the model on concrete texts with the simplifier: the character
  classes on ASCII, \<open>py_split\<close> by cases on the first character, and the definitions to
  unfold.
\<close>

lemma isspace_ascii: "c < 128 \<Longrightarrow> isspace c \<longleftrightarrow> (9 \<le> c \<and> c \<le> 13) \<or> (28 \<le> c \<and> c \<le> 32)"
  by (auto simp: isspace_def)

lemma isdecimal_ascii: "c < 128 \<Longrightarrow> isdecimal c \<longleftrightarrow> 48 \<le> c \<and> c \<le> 57"
  by (auto simp: isdecimal_def decimal_zeros_def)

lemma py_split_Nil: "py_split [] = []"
  by (subst py_split.simps) simp

lemma py_split_Cons:
  "py_split (c # cs) =
     (if isspace c then py_split cs
      else (c # takeWhile (\<lambda>c. \<not> isspace c) cs) # py_split (dropWhile (\<lambda>c. \<not> isspace c) cs))"
proof (cases "isspace c")
  case True
  then show ?thesis
    by (subst py_split.simps, subst (2) py_split.simps) (simp add: Let_def)
next
  case False
  then show ?thesis by (subst py_split.simps) (simp add: Let_def)
qed

lemmas eval_simps = str_def isspace_ascii isdecimal_ascii py_split_Nil py_split_Cons
  py_strip_def clean_field_value_def

lemmas eval_normalize = strip_units_def units_to_strip_def strip_unit_def ignorecase_eq_def
  ascii_letter_def normalize_value_def VALUE_PARSE_TYPES_def Let_def normalize_numeric_def
  match_mult_def match_mid_def match_r_def match_plain_def match_number_def
  multiplier_letters_def normalize_mult_def with_suffix_def


lemmas eval_voltage = extract_voltage_def sub_voltage.simps match_voltage_def match_number_def Let_def


lemmas eval_observe = observe_def dict_get_def process_value_def get_designator_type_def
  py_upper_def



lemmas eval_float = parse_value_to_float_def try_value_def try_mid_def try_r_def match_value_def
  match_mid_def match_r_def digit_or_dot_def multiplier_letters_def multipliers_def
  ignorecase_eq_def ascii_letter_def Let_def


lemma symbol_indices_Nil: "symbol_indices [] = []"
  by (simp add: symbol_indices_def)

lemma symbol_indices_Cons:
  "symbol_indices (c # cs) =
     (if take 7 (c # cs) = str ''(symbol'' then [0] else []) @ map Suc (symbol_indices cs)"
proof -
  have "[0..<length (c # cs)] = 0 # map Suc [0..<length cs]"
    by (simp add: upt_conv_Cons map_Suc_upt del: upt_Suc)
  then show ?thesis
    by (simp add: symbol_indices_def filter_map comp_def)
qed

lemmas eval_parse = symbol_indices_Nil symbol_indices_Cons remove_lib_symbols_def
  block_props_def py_in_def should_exclude_component_def marker_at_def
  match_property_def match_quoted_def match_lib_id_def dict_of_def dict_get_def
  strip_designator_suffix_def ascii_letter_def Let_def

lemmas eval_block = get_balanced_block_def get_balanced_loop.simps block_at_def


section \<open>Properties of the merge engine\<close>

lemma fill_blank_keeps:
  "(\<And>f p. H (upd f p) = H p) \<Longrightarrow> H (fst (fill_blank get upd np eu)) = H (fst eu)"
  by (simp add: fill_blank_def)

lemma fill_blank_sets:
  "(\<And>f p. get (upd f p) = f (get p)) \<Longrightarrow>
   get (fst (fill_blank get upd np eu)) =
     (if get (fst eu) = [] \<and> get np \<noteq> [] then get np else get (fst eu))"
  by (simp add: fill_blank_def)

lemma take_newest_keeps:
  "(\<And>f p. H (upd f p) = H p) \<Longrightarrow> H (fst (take_newest get upd msg np eup)) = H (fst eup)"
  by (simp add: take_newest_def split: prod.splits)

lemma update_newest_keeps:
  "(\<And>f p. H (Description_update f p) = H p) \<Longrightarrow> (\<And>f p. H (Symbol_update f p) = H p) \<Longrightarrow>
   H (fst (update_newest mpn np eu)) = H (fst eu)"
  by (simp add: update_newest_def take_newest_keeps)

lemma add_project_keeps:
  "add_project mpn np eu = Inr (e', entries) \<Longrightarrow>
   (\<And>f p. H (Projects_update f p) = H p) \<Longrightarrow> (\<And>f p. H (Last_Used_update f p) = H p) \<Longrightarrow>
   H e' = H (fst eu)"
  by (auto simp: add_project_def Let_def split: list.splits if_splits)

lemma add_project_returns:
  "Projects np \<noteq> [] \<Longrightarrow> \<exists>r. add_project mpn np eu = Inr r"
  by (auto simp: add_project_def Let_def split: list.splits)

lemma add_project_Projects:
  assumes "add_project mpn np eu = Inr (e', entries)"
  shows "\<exists>new_proj rest. Projects np = new_proj # rest \<and>
     Projects e' = (if new_proj \<in> set (Projects (fst eu)) then Projects (fst eu)
                    else Projects (fst eu) @ [new_proj]) \<and>
     Last_Used e' = (if new_proj \<notin> set (Projects (fst eu)) \<and> Last_Used np > Last_Used (fst eu)
                     then Last_Used np else Last_Used (fst eu))"
proof (cases "Projects np")
  case Nil
  with assms show ?thesis by (simp add: add_project_def)
next
  case (Cons p rest)
  show ?thesis
  proof (cases "p \<in> set (Projects (fst eu))")
    case True
    with Cons assms have "e' = fst eu"
      by (simp add: add_project_def Let_def split: if_splits)
    with True Cons show ?thesis by simp
  next
    case False
    with Cons assms have "e' = (if Last_Used np > Last_Used (fst eu)
        then (fst eu)\<lparr>Projects := Projects (fst eu) @ [p], Last_Used := Last_Used np\<rparr>
        else (fst eu)\<lparr>Projects := Projects (fst eu) @ [p]\<rparr>)"
      by (simp add: add_project_def Let_def)
    with False Cons show ?thesis by simp
  qed
qed

lemma merge_step_other:
  assumes "merge_step st (k, np) = Inr st'" "k \<noteq> m"
  shows "map_of (master_data st') m = map_of (master_data st) m"
    and "filter (\<lambda>c. conflict_mpn c = m) (errors st') = filter (\<lambda>c. conflict_mpn c = m) (errors st)"
  using assms
  by (auto simp: merge_step_def update_conv' split: option.splits if_splits prod.splits sum.splits)

lemma merge_step_conflict:
  assumes "map_of (master_data st) mpn = Some ex"
    "Value ex \<noteq> Value np \<or> Footprint ex \<noteq> Footprint np"
  shows "merge_step st (mpn, np) = Inr (st\<lparr>errors := errors st @
           [CONFLICT mpn (Value ex) (Footprint ex) (Value np) (Footprint np)]\<rparr>)"
  using assms by (auto simp: merge_step_def)

lemma merge_step_consistent:
  assumes "map_of (master_data st) mpn = Some ex"
    "Value ex = Value np" "Footprint ex = Footprint np"
    "merge_step st (mpn, np) = Inr st'"
  shows "\<exists>e u out e' entries.
     update_newest mpn np (fill_fields np ex) = (e, u, out) \<and>
     add_project mpn np (e, u) = Inr (e', entries) \<and>
     map_of (master_data st') mpn = Some e' \<and> errors st' = errors st"
  using assms
  by (auto simp: merge_step_def update_conv' split: prod.splits sum.splits)

lemma merge_step_returns:
  assumes "Projects (snd kv) \<noteq> []"
  shows "\<exists>st'. merge_step st kv = Inr st'"
proof (cases kv)
  case (Pair mpn np)
  show ?thesis
  proof (cases "map_of (master_data st) mpn")
    case None
    with Pair show ?thesis by (simp add: merge_step_def)
  next
    case (Some ex)
    show ?thesis
    proof (cases "Value ex \<noteq> Value np \<or> Footprint ex \<noteq> Footprint np")
      case True
      with Some Pair show ?thesis by (simp add: merge_step_def)
    next
      case False
      obtain e u out where un: "update_newest mpn np (fill_fields np ex) = (e, u, out)"
        by (cases "update_newest mpn np (fill_fields np ex)")
      from assms Pair obtain e' entries where "add_project mpn np (e, u) = Inr (e', entries)"
        using add_project_returns[of np mpn "(e, u)"] by auto
      with un False Some Pair show ?thesis by (simp add: merge_step_def)
    qed
  qed
qed

lemma merge_loop_returns:
  "\<forall>kv \<in> set xs. Projects (snd kv) \<noteq> [] \<Longrightarrow> \<exists>st'. merge_loop st xs = Inr st'"
proof (induction xs arbitrary: st)
  case Nil
  then show ?case by simp
next
  case (Cons kv xs)
  then obtain s where "merge_step st kv = Inr s"
    using merge_step_returns[of kv st] by auto
  with Cons show ?case by simp
qed

lemma merge_loop_append:
  "merge_loop st (xs @ ys) =
     (case merge_loop st xs of Inl err \<Rightarrow> Inl err | Inr s \<Rightarrow> merge_loop s ys)"
  by (induction xs arbitrary: st) (auto split: sum.splits)

lemma merge_loop_other:
  assumes "merge_loop st xs = Inr st'" "m \<notin> fst ` set xs"
  shows "map_of (master_data st') m = map_of (master_data st) m \<and>
     filter (\<lambda>c. conflict_mpn c = m) (errors st') = filter (\<lambda>c. conflict_mpn c = m) (errors st)"
  using assms
proof (induction xs arbitrary: st)
  case Nil
  then show ?case by simp
next
  case (Cons kv xs)
  obtain k np where kv: "kv = (k, np)" by (cases kv)
  from Cons.prems obtain s where s: "merge_step st kv = Inr s" and l: "merge_loop s xs = Inr st'"
    by (auto split: sum.splits)
  from Cons.prems kv have "k \<noteq> m" by auto
  with s kv merge_step_other[of st k np s m] Cons.IH[OF l] Cons.prems(2) show ?case by auto
qed

lemma merge_step_Stock:
  assumes "merge_step st kv = Inr st'" "map_of (master_data st) m = Some r"
  shows "\<exists>r'. map_of (master_data st') m = Some r' \<and> Stock r' = Stock r"
proof (cases kv)
  case (Pair mpn np)
  show ?thesis
  proof (cases "mpn = m")
    case False
    with assms Pair merge_step_other(1)[of st mpn np st' m] show ?thesis by simp
  next
    case True
    show ?thesis
    proof (cases "Value r \<noteq> Value np \<or> Footprint r \<noteq> Footprint np")
      case c: True
      from merge_step_conflict[OF assms(2)[folded True] c] assms Pair True
      show ?thesis by auto
    next
      case False
      then have "Value r = Value np" "Footprint r = Footprint np" by auto
      from merge_step_consistent[OF assms(2)[folded True] this assms(1)[unfolded Pair]]
      obtain e u out e' entries where
        un: "update_newest mpn np (fill_fields np r) = (e, u, out)" and
        ad: "add_project mpn np (e, u) = Inr (e', entries)" and
        m: "map_of (master_data st') mpn = Some e'" by blast
      have "Stock e' = Stock e"
        using add_project_keeps[OF ad, of Stock] by simp
      also have "\<dots> = Stock (fst (fill_fields np r))"
        using update_newest_keeps[of Stock mpn np "fill_fields np r"] un by simp
      also have "\<dots> = Stock r"
        by (simp add: fill_fields_def fill_blank_keeps)
      finally show ?thesis using m True by simp
    qed
  qed
qed

lemma merge_loop_Stock:
  assumes "merge_loop st xs = Inr st'" "map_of (master_data st) m = Some r"
  shows "\<exists>r'. map_of (master_data st') m = Some r' \<and> Stock r' = Stock r"
  using assms
proof (induction xs arbitrary: st r)
  case Nil
  then show ?case by simp
next
  case (Cons kv xs)
  from Cons.prems obtain s where s: "merge_step st kv = Inr s" and l: "merge_loop s xs = Inr st'"
    by (auto split: sum.splits)
  from merge_step_Stock[OF s Cons.prems(2)] obtain r1 where
    "map_of (master_data s) m = Some r1" "Stock r1 = Stock r" by blast
  with Cons.IH[OF l] show ?case by auto
qed

lemma merge_step_keys:
  assumes "merge_step st kv = Inr st'" "distinct (map fst (master_data st))"
  shows "distinct (map fst (master_data st'))"
  using assms
  by (cases kv) (auto simp: merge_step_def distinct_update split: option.splits if_splits prod.splits sum.splits)

lemma merge_loop_keys:
  assumes "merge_loop st xs = Inr st'" "distinct (map fst (master_data st))"
  shows "distinct (map fst (master_data st'))"
  using assms
proof (induction xs arbitrary: st)
  case Nil
  then show ?case by simp
next
  case (Cons kv xs)
  from Cons.prems obtain s where s: "merge_step st kv = Inr s" and l: "merge_loop s xs = Inr st'"
    by (auto split: sum.splits)
  from Cons.IH[OF l merge_step_keys[OF s Cons.prems(2)]] show ?case .
qed

text \<open>The turn of the loop that handles a given key of a dictionary.\<close>

lemma merge_loop_at:
  assumes "distinct (map fst new_data)" "(mpn, np) \<in> set new_data"
    "merge_loop st new_data = Inr st'"
  shows "\<exists>s s'. map_of (master_data s) mpn = map_of (master_data st) mpn \<and>
     filter (\<lambda>c. conflict_mpn c = mpn) (errors s) = filter (\<lambda>c. conflict_mpn c = mpn) (errors st) \<and>
     merge_step s (mpn, np) = Inr s' \<and>
     map_of (master_data st') mpn = map_of (master_data s') mpn \<and>
     filter (\<lambda>c. conflict_mpn c = mpn) (errors st') = filter (\<lambda>c. conflict_mpn c = mpn) (errors s')"
proof -
  from assms(2) obtain xs ys where sp: "new_data = xs @ (mpn, np) # ys"
    by (auto dest: split_list)
  with assms(1) have nx: "mpn \<notin> fst ` set xs" and ny: "mpn \<notin> fst ` set ys" by auto
  from assms(3) sp obtain s where s: "merge_loop st xs = Inr s"
    and r: "merge_loop s ((mpn, np) # ys) = Inr st'"
    by (auto simp: merge_loop_append split: sum.splits)
  from r obtain s' where s': "merge_step s (mpn, np) = Inr s'" and t: "merge_loop s' ys = Inr st'"
    by (auto split: sum.splits)
  from merge_loop_other[OF s nx] merge_loop_other[OF t ny] s' show ?thesis by blast
qed

text \<open>
  Claim C1. \<open>new_data\<close> is a dictionary (its keys are distinct). If it holds a record
  under an MPN that \<open>master_data\<close> already has, and the value or the footprint of the two
  differ, then after \<open>merge_data\<close> the stored record is the very same record, so no field
  was filled, no project added and no date advanced, and the returned conflict list has
  exactly one entry for that MPN, made of the two values and footprints. The merge
  returns whenever no incoming record has an empty project set.
\<close>

theorem merge_conflict_no_mutation:
  assumes "distinct (map fst new_data)" and "(mpn, new_part) \<in> set new_data"
    and "map_of master mpn = Some existing"
    and "Value existing \<noteq> Value new_part \<or> Footprint existing \<noteq> Footprint new_part"
  shows "(\<forall>st'. merge_data master new_data = Inr st' \<longrightarrow>
            map_of (master_data st') mpn = Some existing \<and>
            filter (\<lambda>c. conflict_mpn c = mpn) (errors st') =
              [CONFLICT mpn (Value existing) (Footprint existing)
                 (Value new_part) (Footprint new_part)]) \<and>
         ((\<forall>kv \<in> set new_data. Projects (snd kv) \<noteq> []) \<longrightarrow>
            (\<exists>st'. merge_data master new_data = Inr st'))"
proof (intro conjI allI impI)
  fix st'
  assume r: "merge_data master new_data = Inr st'"
  let ?st = "\<lparr>master_data = master, changes = [], errors = [], printed = []\<rparr>"
  from r have l: "merge_loop ?st new_data = Inr st'" by (simp add: merge_data_def)
  from merge_loop_at[OF assms(1,2) l] obtain s s' where
    a: "map_of (master_data s) mpn = map_of (master_data ?st) mpn" and
    b: "filter (\<lambda>c. conflict_mpn c = mpn) (errors s) = filter (\<lambda>c. conflict_mpn c = mpn) (errors ?st)" and
    c: "merge_step s (mpn, new_part) = Inr s'" and
    d: "map_of (master_data st') mpn = map_of (master_data s') mpn" and
    e: "filter (\<lambda>c. conflict_mpn c = mpn) (errors st') = filter (\<lambda>c. conflict_mpn c = mpn) (errors s')"
    by blast
  from a assms(3) have f: "map_of (master_data s) mpn = Some existing" by simp
  from merge_step_conflict[OF f assms(4)] c
  have s': "s' = s\<lparr>errors := errors s @
           [CONFLICT mpn (Value existing) (Footprint existing) (Value new_part) (Footprint new_part)]\<rparr>"
    by simp
  from d s' f show "map_of (master_data st') mpn = Some existing" by simp
  from e s' b show "filter (\<lambda>c. conflict_mpn c = mpn) (errors st') =
      [CONFLICT mpn (Value existing) (Footprint existing) (Value new_part) (Footprint new_part)]"
    by simp
next
  assume "\<forall>kv \<in> set new_data. Projects (snd kv) \<noteq> []"
  then show "\<exists>st'. merge_data master new_data = Inr st'"
    unfolding merge_data_def by (rule merge_loop_returns)
qed

theorem merge_conflict_no_mutation_witness:
  "\<exists>st'. merge_data [(str ''X1'', part_R1)] [(str ''X1'', part_R1_0603)] = Inr st' \<and>
     map_of (master_data st') (str ''X1'') = Some part_R1 \<and>
     filter (\<lambda>c. conflict_mpn c = str ''X1'') (errors st') =
       [CONFLICT (str ''X1'') (str ''4.7k'') (str ''0402'') (str ''4.7k'') (str ''0603'')]"
proof -
  have h: "Value part_R1 \<noteq> Value part_R1_0603 \<or> Footprint part_R1 \<noteq> Footprint part_R1_0603"
    by (simp add: part_R1_def part_R1_0603_def part_R1_scan_def str_def)
  have p: "\<forall>kv \<in> set [(str ''X1'', part_R1_0603)]. Projects (snd kv) \<noteq> []"
    by (simp add: part_R1_0603_def part_R1_scan_def)
  have v: "Value part_R1 = str ''4.7k''" "Footprint part_R1 = str ''0402''"
    "Value part_R1_0603 = str ''4.7k''" "Footprint part_R1_0603 = str ''0603''"
    by (simp_all add: part_R1_def part_R1_0603_def part_R1_scan_def)
  from merge_conflict_no_mutation [of "[(str ''X1'', part_R1_0603)]" "str ''X1''" part_R1_0603
      "[(str ''X1'', part_R1)]" part_R1, OF _ _ _ h] p v
  show ?thesis by auto
qed

lemma merge_data_at:
  assumes "distinct (map fst new_data)" "(mpn, np) \<in> set new_data"
    "map_of master mpn = Some ex" "Value ex = Value np" "Footprint ex = Footprint np"
    "merge_data master new_data = Inr st'"
  shows "\<exists>e u out e' entries.
     update_newest mpn np (fill_fields np ex) = (e, u, out) \<and>
     add_project mpn np (e, u) = Inr (e', entries) \<and>
     map_of (master_data st') mpn = Some e'"
proof -
  let ?st = "\<lparr>master_data = master, changes = [], errors = [], printed = []\<rparr>"
  from assms(6) have l: "merge_loop ?st new_data = Inr st'" by (simp add: merge_data_def)
  from merge_loop_at[OF assms(1,2) l] obtain s s' where
    a: "map_of (master_data s) mpn = map_of (master_data ?st) mpn" and
    c: "merge_step s (mpn, np) = Inr s'" and
    d: "map_of (master_data st') mpn = map_of (master_data s') mpn"
    by blast
  from a assms(3) have f: "map_of (master_data s) mpn = Some ex" by simp
  from merge_step_consistent[OF f assms(4,5) c] d show ?thesis by auto
qed

text \<open>
  Claim C2. If the MPN of an incoming record is present with the same value and
  footprint, then after \<open>merge_data\<close> each of Mouser PN, Digikey PN, Voltage, Tolerance,
  Manufacturer, Datasheet and Extra of the stored record is the incoming text when the
  stored one was empty and the incoming one is not, and is the stored text otherwise: a
  non-empty stored text is never overwritten. Whatever the incoming records are, every
  record that was in the inventory is still there with the \<open>Stock\<close> it had. The merge
  returns whenever no incoming record has an empty project set.
\<close>

theorem merge_fill_only:
  "(distinct (map fst new_data) \<and> (mpn, new_part) \<in> set new_data \<and>
    map_of master mpn = Some existing \<and>
    Value existing = Value new_part \<and> Footprint existing = Footprint new_part \<and>
    merge_data master new_data = Inr st' \<longrightarrow>
      (\<exists>e'. map_of (master_data st') mpn = Some e' \<and>
         (\<forall>field \<in> set [Mouser_PN, Digikey_PN, Voltage, Tolerance, Manufacturer, Datasheet, Extra].
            field e' = (if field existing = [] \<and> field new_part \<noteq> [] then field new_part
                        else field existing)))) \<and>
   (merge_data master new_data = Inr st' \<longrightarrow>
      (\<forall>m r. map_of master m = Some r \<longrightarrow>
         (\<exists>r'. map_of (master_data st') m = Some r' \<and> Stock r' = Stock r))) \<and>
   ((\<forall>kv \<in> set new_data. Projects (snd kv) \<noteq> []) \<longrightarrow>
      (\<exists>st'. merge_data master new_data = Inr st'))"
proof (intro conjI impI allI)
  assume a: "distinct (map fst new_data) \<and> (mpn, new_part) \<in> set new_data \<and>
    map_of master mpn = Some existing \<and>
    Value existing = Value new_part \<and> Footprint existing = Footprint new_part \<and>
    merge_data master new_data = Inr st'"
  then obtain e u out e' entries where
    un: "update_newest mpn new_part (fill_fields new_part existing) = (e, u, out)" and
    ad: "add_project mpn new_part (e, u) = Inr (e', entries)" and
    m: "map_of (master_data st') mpn = Some e'"
    using merge_data_at[of new_data mpn new_part master existing st'] by blast
  have k: "H e' = H (fst (fill_fields new_part existing))"
    if "\<And>f p. H (Projects_update f p) = H p" "\<And>f p. H (Last_Used_update f p) = H p"
       "\<And>f p. H (Description_update f p) = H p" "\<And>f p. H (Symbol_update f p) = H p"
    for H :: "part \<Rightarrow> str"
    using add_project_keeps[OF ad, of H] update_newest_keeps[of H mpn new_part "fill_fields new_part existing"]
      un that by simp
  have "Mouser_PN e' = (if Mouser_PN existing = [] \<and> Mouser_PN new_part \<noteq> [] then Mouser_PN new_part else Mouser_PN existing)"
    by (simp add: k fill_fields_def fill_blank_keeps fill_blank_sets)
  moreover have "Digikey_PN e' = (if Digikey_PN existing = [] \<and> Digikey_PN new_part \<noteq> [] then Digikey_PN new_part else Digikey_PN existing)"
    by (simp add: k fill_fields_def fill_blank_keeps fill_blank_sets)
  moreover have "Voltage e' = (if Voltage existing = [] \<and> Voltage new_part \<noteq> [] then Voltage new_part else Voltage existing)"
    by (simp add: k fill_fields_def fill_blank_keeps fill_blank_sets)
  moreover have "Tolerance e' = (if Tolerance existing = [] \<and> Tolerance new_part \<noteq> [] then Tolerance new_part else Tolerance existing)"
    by (simp add: k fill_fields_def fill_blank_keeps fill_blank_sets)
  moreover have "Manufacturer e' = (if Manufacturer existing = [] \<and> Manufacturer new_part \<noteq> [] then Manufacturer new_part else Manufacturer existing)"
    by (simp add: k fill_fields_def fill_blank_keeps fill_blank_sets)
  moreover have "Datasheet e' = (if Datasheet existing = [] \<and> Datasheet new_part \<noteq> [] then Datasheet new_part else Datasheet existing)"
    by (simp add: k fill_fields_def fill_blank_keeps fill_blank_sets)
  moreover have "Extra e' = (if Extra existing = [] \<and> Extra new_part \<noteq> [] then Extra new_part else Extra existing)"
    by (simp add: k fill_fields_def fill_blank_keeps fill_blank_sets)
  ultimately show "\<exists>e'. map_of (master_data st') mpn = Some e' \<and>
         (\<forall>field \<in> set [Mouser_PN, Digikey_PN, Voltage, Tolerance, Manufacturer, Datasheet, Extra].
            field e' = (if field existing = [] \<and> field new_part \<noteq> [] then field new_part
                        else field existing))"
    using m by simp
next
  fix m r
  assume "merge_data master new_data = Inr st'" "map_of master m = Some r"
  then show "\<exists>r'. map_of (master_data st') m = Some r' \<and> Stock r' = Stock r"
    using merge_loop_Stock[of "\<lparr>master_data = master, changes = [], errors = [], printed = []\<rparr>" new_data st' m r]
    by (simp add: merge_data_def)
next
  assume "\<forall>kv \<in> set new_data. Projects (snd kv) \<noteq> []"
  then show "\<exists>st'. merge_data master new_data = Inr st'"
    unfolding merge_data_def by (rule merge_loop_returns)
qed

theorem merge_fill_only_witness:
  "\<exists>st' e'. merge_data [(str ''X1'', part_R1)] [(str ''X1'', part_R1_scan)] = Inr st' \<and>
     map_of (master_data st') (str ''X1'') = Some e' \<and>
     Mouser_PN e' = str ''M-1'' \<and> Voltage e' = str ''50V'' \<and> Tolerance e' = str ''1%'' \<and>
     Manufacturer e' = str ''Yageo'' \<and> Digikey_PN e' = [] \<and> Stock e' = str ''120''"
proof -
  let ?m = "[(str ''X1'', part_R1)]" and ?n = "[(str ''X1'', part_R1_scan)]"
  have p: "\<forall>kv \<in> set ?n. Projects (snd kv) \<noteq> []"
    by (simp add: part_R1_scan_def)
  note t = merge_fill_only [of ?n "str ''X1''" part_R1_scan ?m part_R1]
  from t p obtain st' where r: "merge_data ?m ?n = Inr st'" by blast
  have h: "distinct (map fst ?n) \<and> (str ''X1'', part_R1_scan) \<in> set ?n \<and>
    map_of ?m (str ''X1'') = Some part_R1 \<and>
    Value part_R1 = Value part_R1_scan \<and> Footprint part_R1 = Footprint part_R1_scan \<and>
    merge_data ?m ?n = Inr st'"
    using r by (simp add: part_R1_def part_R1_scan_def)
  from t[of st'] h obtain e' where e: "map_of (master_data st') (str ''X1'') = Some e'"
    and f: "\<forall>field \<in> set [Mouser_PN, Digikey_PN, Voltage, Tolerance, Manufacturer, Datasheet, Extra].
            field e' = (if field part_R1 = [] \<and> field part_R1_scan \<noteq> [] then field part_R1_scan
                        else field part_R1)"
    by blast
  from t[of st', THEN conjunct2, THEN conjunct1] r
  have "\<exists>r'. map_of (master_data st') (str ''X1'') = Some r' \<and> Stock r' = Stock part_R1"
    by simp
  with e have s: "Stock e' = Stock part_R1" by auto
  from f s have "Mouser_PN e' = str ''M-1'' \<and> Voltage e' = str ''50V'' \<and> Tolerance e' = str ''1%'' \<and>
     Manufacturer e' = str ''Yageo'' \<and> Digikey_PN e' = [] \<and> Stock e' = str ''120''"
    by (simp add: part_R1_def part_R1_scan_def str_def)
  with r e show ?thesis by blast
qed

text \<open>
  Claim C6. If the MPN of an incoming record is present with the same value and
  footprint, and \<open>new_proj\<close> is the project of the incoming record, then: when
  \<open>new_proj\<close> is not among the stored projects, the stored set becomes the old one with
  \<open>new_proj\<close> added and \<open>Last Used\<close> becomes the incoming date exactly when that is
  greater in string order; when \<open>new_proj\<close> is already there, the projects and
  \<open>Last Used\<close> stay as they were. The keys of the inventory stay distinct, so no second
  row is made for the MPN.
\<close>

theorem merge_project_membership:
  "(distinct (map fst new_data) \<and> (mpn, new_part) \<in> set new_data \<and>
    map_of master mpn = Some existing \<and>
    Value existing = Value new_part \<and> Footprint existing = Footprint new_part \<and>
    Projects new_part = new_proj # others \<and>
    merge_data master new_data = Inr st' \<longrightarrow>
      (\<exists>e'. map_of (master_data st') mpn = Some e' \<and>
         (new_proj \<notin> set (Projects existing) \<longrightarrow>
            set (Projects e') = insert new_proj (set (Projects existing)) \<and>
            Last_Used e' = (if Last_Used new_part > Last_Used existing
                            then Last_Used new_part else Last_Used existing)) \<and>
         (new_proj \<in> set (Projects existing) \<longrightarrow>
            Projects e' = Projects existing \<and> Last_Used e' = Last_Used existing)) \<and>
      (distinct (map fst master) \<longrightarrow> distinct (map fst (master_data st')))) \<and>
   ((\<forall>kv \<in> set new_data. Projects (snd kv) \<noteq> []) \<longrightarrow>
      (\<exists>st'. merge_data master new_data = Inr st'))"
proof (intro conjI impI)
  assume a: "distinct (map fst new_data) \<and> (mpn, new_part) \<in> set new_data \<and>
    map_of master mpn = Some existing \<and>
    Value existing = Value new_part \<and> Footprint existing = Footprint new_part \<and>
    Projects new_part = new_proj # others \<and>
    merge_data master new_data = Inr st'"
  then obtain e u out e' entries where
    un: "update_newest mpn new_part (fill_fields new_part existing) = (e, u, out)" and
    ad: "add_project mpn new_part (e, u) = Inr (e', entries)" and
    m: "map_of (master_data st') mpn = Some e'"
    using merge_data_at[of new_data mpn new_part master existing st'] by blast
  have p: "Projects e = Projects existing"
    using update_newest_keeps[of Projects mpn new_part "fill_fields new_part existing"] un
    by (simp add: fill_fields_def fill_blank_keeps)
  have l: "Last_Used e = Last_Used existing"
    using update_newest_keeps[of Last_Used mpn new_part "fill_fields new_part existing"] un
    by (simp add: fill_fields_def fill_blank_keeps)
  from add_project_Projects[OF ad] a p l
  have "Projects e' = (if new_proj \<in> set (Projects existing) then Projects existing
                    else Projects existing @ [new_proj])"
    and "Last_Used e' = (if new_proj \<notin> set (Projects existing) \<and> Last_Used new_part > Last_Used existing
                     then Last_Used new_part else Last_Used existing)"
    by auto
  with m show "\<exists>e'. map_of (master_data st') mpn = Some e' \<and>
         (new_proj \<notin> set (Projects existing) \<longrightarrow>
            set (Projects e') = insert new_proj (set (Projects existing)) \<and>
            Last_Used e' = (if Last_Used new_part > Last_Used existing
                            then Last_Used new_part else Last_Used existing)) \<and>
         (new_proj \<in> set (Projects existing) \<longrightarrow>
            Projects e' = Projects existing \<and> Last_Used e' = Last_Used existing)"
    by simp
  assume "distinct (map fst master)"
  with a show "distinct (map fst (master_data st'))"
    using merge_loop_keys[of "\<lparr>master_data = master, changes = [], errors = [], printed = []\<rparr>" new_data st']
    by (simp add: merge_data_def)
next
  assume "\<forall>kv \<in> set new_data. Projects (snd kv) \<noteq> []"
  then show "\<exists>st'. merge_data master new_data = Inr st'"
    unfolding merge_data_def by (rule merge_loop_returns)
qed

theorem merge_project_membership_witness:
  "\<exists>st' e'. merge_data [(str ''X1'', part_R1)] [(str ''X1'', part_R1_scan)] = Inr st' \<and>
     map_of (master_data st') (str ''X1'') = Some e' \<and>
     set (Projects e') = {str ''amp'', str ''radio''} \<and> Last_Used e' = str ''2024-03-02'' \<and>
     distinct (map fst (master_data st'))"
proof -
  let ?m = "[(str ''X1'', part_R1)]" and ?n = "[(str ''X1'', part_R1_scan)]"
  have p: "\<forall>kv \<in> set ?n. Projects (snd kv) \<noteq> []"
    by (simp add: part_R1_scan_def)
  note t = merge_project_membership [of ?n "str ''X1''" part_R1_scan ?m part_R1 "str ''radio''" "[]"]
  from t p obtain st' where r: "merge_data ?m ?n = Inr st'" by blast
  have h: "distinct (map fst ?n) \<and> (str ''X1'', part_R1_scan) \<in> set ?n \<and>
    map_of ?m (str ''X1'') = Some part_R1 \<and>
    Value part_R1 = Value part_R1_scan \<and> Footprint part_R1 = Footprint part_R1_scan \<and>
    Projects part_R1_scan = [str ''radio''] \<and>
    merge_data ?m ?n = Inr st'"
    using r by (simp add: part_R1_def part_R1_scan_def)
  have n: "str ''radio'' \<notin> set (Projects part_R1)" "Last_Used part_R1_scan > Last_Used part_R1"
    by (simp_all add: part_R1_def part_R1_scan_def str_def)
  have d: "distinct (map fst ?m)" by simp
  from t[of st'] h n d obtain e' where "map_of (master_data st') (str ''X1'') = Some e'"
    "set (Projects e') = insert (str ''radio'') (set (Projects part_R1))"
    "Last_Used e' = Last_Used part_R1_scan" "distinct (map fst (master_data st'))"
    by auto
  with r show ?thesis
    by (auto simp: part_R1_def part_R1_scan_def)
qed

section \<open>Properties of the block extractor\<close>


lemma inside_string_Suc:
  "start \<le> i \<Longrightarrow> inside_string text start (Suc i) =
     (if unescaped_quote text i then \<not> inside_string text start i else inside_string text start i)"
  by (simp add: inside_string_def)

lemma depth_upto_Suc:
  "start \<le> i \<Longrightarrow> depth_upto text start (Suc i) =
     depth_upto text start i +
       (if counted text start CHR ''('' i then 1 else 0) -
       (if counted text start CHR '')'' i then 1 else 0)"
  by (simp add: depth_upto_def)

lemma depth_upto_start [simp]: "depth_upto text start start = 0"
  by (simp add: depth_upto_def)

lemma inside_string_start [simp]: "\<not> inside_string text start start"
  by (simp add: inside_string_def)

lemma skip_least:
  assumes "\<not> closes_block text start i"
  shows "(\<exists>j\<ge>i. closes_block text start j) = (\<exists>j\<ge>Suc i. closes_block text start j)"
    and "(LEAST j. i \<le> j \<and> closes_block text start j) = (LEAST j. Suc i \<le> j \<and> closes_block text start j)"
proof -
  have e: "(i \<le> j \<and> closes_block text start j) = (Suc i \<le> j \<and> closes_block text start j)" for j
    using assms by (cases "j = i") auto
  show "(\<exists>j\<ge>i. closes_block text start j) = (\<exists>j\<ge>Suc i. closes_block text start j)"
    using e by blast
  show "(LEAST j. i \<le> j \<and> closes_block text start j) = (LEAST j. Suc i \<le> j \<and> closes_block text start j)"
    using e by simp
qed

lemma get_balanced_loop_spec:
  "start \<le> i \<Longrightarrow>
   get_balanced_loop text i (depth_upto text start i) (inside_string text start i) =
     (if \<exists>j\<ge>i. closes_block text start j
      then (LEAST j. i \<le> j \<and> closes_block text start j) else length text)"
proof (induction "length text - i" arbitrary: i)
  case 0
  then have "\<not> i < length text" by simp
  then have "\<not> (\<exists>j\<ge>i. closes_block text start j)" by (auto simp: closes_block_def)
  with \<open>\<not> i < length text\<close> show ?case
    by (subst get_balanced_loop.simps) auto
next
  case (Suc n)
  then have il: "i < length text" and n: "n = length text - Suc i" and si: "start \<le> Suc i" by auto
  note IH = Suc.hyps(1)[OF n si]
  note ds = depth_upto_Suc[OF Suc.prems, of "text"] and ins = inside_string_Suc[OF Suc.prems, of "text"]
  show ?case
  proof (cases "closes_block text start i")
    case True
    then have c: "text ! i = of_char CHR '')''" "\<not> unescaped_quote text i" "\<not> inside_string text start i"
      and d: "depth_upto text start i - 1 = 0"
      using ds by (auto simp: closes_block_def counted_def)
    have "(LEAST j. i \<le> j \<and> closes_block text start j) = i"
      using True by (intro Least_equality) auto
    moreover have "\<exists>j\<ge>i. closes_block text start j" using True by blast
    moreover have "get_balanced_loop text i (depth_upto text start i) (inside_string text start i) = i"
      using il c d by (subst get_balanced_loop.simps) (simp add: unescaped_quote_def)
    ultimately show ?thesis by simp
  next
    case False
    note sk = skip_least[OF False]
    show ?thesis
    proof (cases "unescaped_quote text i")
      case q: True
      then have "depth_upto text start (Suc i) = depth_upto text start i"
        "inside_string text start (Suc i) = (\<not> inside_string text start i)"
        using ds ins by (auto simp: counted_def)
      with IH sk q il show ?thesis
        by (subst get_balanced_loop.simps) (auto simp add: unescaped_quote_def)
    next
      case nq: False
      then have i1: "inside_string text start (Suc i) = inside_string text start i"
        using ins by simp
      show ?thesis
      proof (cases "inside_string text start i")
        case True
        then have "depth_upto text start (Suc i) = depth_upto text start i"
          using ds by (auto simp: counted_def)
        with IH sk nq il i1 True show ?thesis
          by (subst get_balanced_loop.simps) (auto simp add: unescaped_quote_def)
      next
        case ni: False
        consider (op) "text ! i = of_char CHR ''(''" | (cl) "text ! i = of_char CHR '')''"
          | (ot) "text ! i \<noteq> of_char CHR ''(''" "text ! i \<noteq> of_char CHR '')''" by blast
        then show ?thesis
        proof cases
          case op
          then have "depth_upto text start (Suc i) = depth_upto text start i + 1"
            using ds nq ni by (auto simp: counted_def)
          with IH sk nq il i1 ni op show ?thesis
            by (subst get_balanced_loop.simps) (auto simp add: unescaped_quote_def)
        next
          case cl
          then have d: "depth_upto text start (Suc i) = depth_upto text start i - 1"
            using ds nq ni by (auto simp: counted_def)
          with False cl nq ni il Suc.prems have "depth_upto text start i - 1 \<noteq> 0"
            by (auto simp: closes_block_def counted_def)
          with d IH sk nq il i1 ni cl show ?thesis
            by (subst get_balanced_loop.simps) (auto simp add: unescaped_quote_def)
        next
          case ot
          then have "depth_upto text start (Suc i) = depth_upto text start i"
            using ds nq ni by (auto simp: counted_def)
          with IH sk nq il i1 ni ot show ?thesis
            by (subst get_balanced_loop.simps) (auto simp add: unescaped_quote_def)
        qed
      qed
    qed
  qed
qed

text \<open>
  Claim C5. When \<open>text[start]\<close> is an opening delimiter, \<open>get_balanced_block\<close>
  returns the first index at which a closing delimiter outside every string literal
  brings the nesting depth, counted from \<open>start\<close> over the delimiters outside string
  literals, back to zero; a quote preceded by a backslash neither opens nor closes a
  literal. When no index closes the block, it returns the length of the text.
\<close>

theorem get_balanced_block_spec:
  assumes "start < length text" and "text ! start = of_char CHR ''(''"
  shows "(\<forall>i. closes_block text start i \<and> (\<forall>j<i. \<not> closes_block text start j) \<longrightarrow>
            get_balanced_block text start = i) \<and>
         ((\<forall>i. \<not> closes_block text start i) \<longrightarrow> get_balanced_block text start = length text)"
proof -
  have g: "get_balanced_block text start =
     (if \<exists>j\<ge>start. closes_block text start j
      then (LEAST j. start \<le> j \<and> closes_block text start j) else length text)"
    using get_balanced_loop_spec[of start start "text"] by (simp add: get_balanced_block_def)
  show ?thesis
  proof (intro conjI allI impI)
    fix i
    assume a: "closes_block text start i \<and> (\<forall>j<i. \<not> closes_block text start j)"
    then have "start \<le> i" by (simp add: closes_block_def)
    with a have "(LEAST j. start \<le> j \<and> closes_block text start j) = i"
      by (intro Least_equality) (auto simp: not_less[symmetric])
    with a \<open>start \<le> i\<close> g show "get_balanced_block text start = i" by auto
  next
    assume "\<forall>i. \<not> closes_block text start i"
    with g show "get_balanced_block text start = length text" by simp
  qed
qed

theorem get_balanced_block_spec_witness:
  "0 < length block_text \<and> block_text ! 0 = of_char CHR ''('' \<and>
   closes_block block_text 0 14 \<and> \<not> (\<exists>j<14. closes_block block_text 0 j) \<and>
   get_balanced_block block_text 0 = 14 \<and>
   0 < length open_text \<and> open_text ! 0 = of_char CHR ''('' \<and>
   \<not> (\<exists>i. closes_block open_text 0 i) \<and> get_balanced_block open_text 0 = 7"
proof -
  have a: "0 < length block_text" "block_text ! 0 = of_char CHR ''(''"
    by (simp_all add: block_text_def str_def)
  have b: "closes_block block_text 0 14" by code_simp
  have "\<forall>j\<in>set [0..<14]. \<not> closes_block block_text 0 j" by code_simp
  then have c: "\<forall>j<14. \<not> closes_block block_text 0 j" by simp
  from get_balanced_block_spec[OF a] b c have r: "get_balanced_block block_text 0 = 14" by blast
  have a': "0 < length open_text" "open_text ! 0 = of_char CHR ''(''"
    by (simp_all add: open_text_def str_def)
  have l: "length open_text = 7" by (simp add: open_text_def str_def)
  have "\<forall>j\<in>set [0..<7]. \<not> closes_block open_text 0 j" by code_simp
  then have c': "\<forall>i. \<not> closes_block open_text 0 i"
    using l by (auto simp: closes_block_def)
  from get_balanced_block_spec[OF a'] c' l have r': "get_balanced_block open_text 0 = 7" by simp
  from a b c r a' c' r' show ?thesis by simp
qed

section \<open>Properties of the numeric projection\<close>

lemma py_split_blank: "py_split [32] = []"
  by (subst py_split.simps) (simp add: isspace_def)

text \<open>
  Claim C7. \<open>parse_value_to_float\<close> is not total: on the text of one space, which is not
  empty, \<open>value_str.split()\<close> is the empty list and \<open>[0]\<close> raises \<open>IndexError\<close>,
  whatever the float operations are.
\<close>

theorem parse_value_to_float_blank:
  "parse_value_to_float ops (str '' '') = Inl IndexError"
  by (simp add: parse_value_to_float_def py_split_blank str_def)

lemma row_key_blank:
  "row_key ops (part_R1\<lparr>Value := str '' ''\<rparr>) = Inl IndexError"
  by (simp add: row_key_def part_R1_def VALUE_PARSE_TYPES_def str_def
      parse_value_to_float_def py_split_blank)

lemma sorted_blank:
  "sorted_parts ops [(str ''X1'', part_R1\<lparr>Value := str '' ''\<rparr>)] = Inl IndexError"
  by (simp add: sorted_parts_def row_key_blank)

lemma py_split_nonempty:
  "py_split s \<noteq> [] \<longleftrightarrow> (\<exists>c \<in> set s. \<not> isspace c)"
  by (subst py_split.simps) (auto simp: Let_def dropWhile_eq_Nil_conv)

lemma parse_value_to_float_returns:
  "value_str = [] \<or> (\<exists>c \<in> set value_str. \<not> isspace c) \<Longrightarrow>
   \<exists>v. parse_value_to_float ops value_str = Inr v"
  using py_split_nonempty[of value_str]
  by (cases "py_split value_str") (auto simp: parse_value_to_float_def split: option.splits)

section \<open>Properties of \<open>normalize_value\<close>\<close>

lemma py_split_tokens: "t \<in> set (py_split s) \<Longrightarrow> token t"
proof (induction s arbitrary: t rule: py_split.induct)
  case (1 s)
  show ?case
  proof (cases "dropWhile isspace s")
    case Nil
    with "1.prems" show ?thesis by (subst (asm) py_split.simps) simp
  next
    case (Cons c r)
    then have nc: "\<not> isspace c" using hd_dropWhile[of isspace s] by auto
    from "1.prems" Cons have "t = takeWhile (\<lambda>c. \<not> isspace c) (c # r) \<or>
        t \<in> set (py_split (dropWhile (\<lambda>c. \<not> isspace c) (c # r)))"
      by (subst (asm) py_split.simps) (simp add: Let_def)
    then show ?thesis
    proof
      assume "t = takeWhile (\<lambda>c. \<not> isspace c) (c # r)"
      then show ?thesis using nc
        by (auto simp: token_def dest: set_takeWhileD)
    next
      assume "t \<in> set (py_split (dropWhile (\<lambda>c. \<not> isspace c) (c # r)))"
      then show ?thesis
        using "1.IH"[of "c # r" t] Cons by simp
    qed
  qed
qed

lemma py_split_token_append:
  assumes "token t" "isspace c"
  shows "py_split (t @ c # rest) = t # py_split rest"
proof -
  from assms(1) obtain a as where t: "t = a # as" and a: "\<not> isspace a"
    and as: "\<forall>x \<in> set as. \<not> isspace x"
    by (cases t) (auto simp: token_def)
  have "takeWhile (\<lambda>c. \<not> isspace c) (as @ c # rest) = as"
    using as assms(2) by (simp add: takeWhile_append2)
  moreover have "dropWhile (\<lambda>c. \<not> isspace c) (as @ c # rest) = c # rest"
    using as assms(2) by (simp add: dropWhile_append2)
  ultimately show ?thesis
    using a assms(2) by (simp add: t py_split_Cons)
qed

lemma py_split_token: "token t \<Longrightarrow> py_split t = [t]"
proof -
  assume "token t"
  then obtain a as where t: "t = a # as" and a: "\<not> isspace a"
    and as: "\<forall>x \<in> set as. \<not> isspace x"
    by (cases t) (auto simp: token_def)
  from as have d: "dropWhile (\<lambda>c. \<not> isspace c) as = []" by simp
  from as have k: "takeWhile (\<lambda>c. \<not> isspace c) as = as" by simp
  show ?thesis unfolding t py_split_Cons d k py_split_Nil using a by simp
qed

lemma py_split_join:
  "\<forall>t \<in> set ts. token t \<Longrightarrow> py_split (join_spaces ts) = ts"
proof (induction ts rule: join_spaces.induct)
  case 1
  then show ?case by (simp add: py_split_Nil)
next
  case (2 t)
  then show ?case by (simp add: py_split_token)
next
  case (3 t v va)
  have "isspace (of_char CHR '' '')" by (simp add: isspace_def)
  with 3 show ?case by (simp add: py_split_token_append)
qed

lemma py_split_dropWhile: "py_split (dropWhile isspace s) = py_split s"
  by (subst py_split.simps, subst (2) py_split.simps) simp

lemma py_split_spaces: "\<forall>c \<in> set s. isspace c \<Longrightarrow> py_split s = []"
  by (subst py_split.simps) simp

lemma rstrip_append:
  "rev (dropWhile isspace (rev (xs @ ys))) =
     (if \<forall>y \<in> set ys. isspace y then rev (dropWhile isspace (rev xs))
      else xs @ rev (dropWhile isspace (rev ys)))"
  by (simp add: dropWhile_append)

lemma rstrip_token: "token t \<Longrightarrow> rev (dropWhile isspace (rev t)) = t"
proof -
  assume "token t"
  then have "rev t \<noteq> []" "\<not> isspace (hd (rev t))"
    by (auto simp: token_def hd_rev)
  then have "dropWhile isspace (rev t) = rev t" by (cases "rev t") auto
  then show ?thesis by simp
qed

lemma collapse_no_space: "\<forall>c \<in> set t. \<not> isspace c \<Longrightarrow> collapse_spaces (t @ y) = t @ collapse_spaces y"
  by (induction t) auto

lemma collapse_spaces_run:
  assumes "ws \<noteq> []" "\<forall>c \<in> set ws. isspace c" "x = [] \<or> \<not> isspace (hd x)"
  shows "collapse_spaces (ws @ x) = of_char CHR '' '' # collapse_spaces x"
proof -
  from assms(1) obtain c cs where w: "ws = c # cs" by (cases ws) auto
  have "dropWhile isspace (cs @ x) = x"
    using assms(2,3) w by (cases x) (auto simp: dropWhile_append)
  with assms(2) w show ?thesis by simp
qed

lemma clean_lstripped:
  "s = [] \<or> \<not> isspace (hd s) \<Longrightarrow>
   collapse_spaces (rev (dropWhile isspace (rev s))) = join_spaces (py_split s)"
proof (induction "length s" arbitrary: s rule: less_induct)
  case less
  show ?case
  proof (cases s)
    case Nil
    then show ?thesis by (simp add: py_split_Nil)
  next
    case (Cons a as)
    with less.prems have a: "\<not> isspace a" by simp
    define t where "t = takeWhile (\<lambda>c. \<not> isspace c) s"
    define r' where "r' = dropWhile (\<lambda>c. \<not> isspace c) s"
    have s: "s = t @ r'" by (simp add: t_def r'_def)
    have tok: "token t" using a Cons by (auto simp: t_def token_def dest: set_takeWhileD)
    have ps: "py_split s = t # py_split r'"
      using a Cons by (simp add: py_split_Cons t_def r'_def)
    show ?thesis
    proof (cases "\<forall>y \<in> set r'. isspace y")
      case True
      then have "rev (dropWhile isspace (rev s)) = t"
        using tok by (simp add: s rstrip_append rstrip_token del: rev_append)
      moreover have "collapse_spaces t = t"
        using collapse_no_space[of t "[]"] tok by (simp add: token_def)
      ultimately show ?thesis using ps py_split_spaces[OF True] by simp
    next
      case False
      define ws where "ws = takeWhile isspace r'"
      define r'' where "r'' = dropWhile isspace r'"
      have r: "r' = ws @ r''" by (simp add: ws_def r''_def)
      from False have ne: "r'' \<noteq> []" by (auto simp: r''_def)
      then have hd: "\<not> isspace (hd r'')" unfolding r''_def by (rule hd_dropWhile)
      from False have "r' \<noteq> []" by auto
      then have "isspace (hd r')" unfolding r'_def using hd_dropWhile[of "\<lambda>c. \<not> isspace c" s] by auto
      with \<open>r' \<noteq> []\<close> have wne: "ws \<noteq> []" unfolding ws_def by (cases r') auto
      have wsp: "\<forall>c \<in> set ws. isspace c" unfolding ws_def by (auto dest: set_takeWhileD)
      have n2: "\<not> (\<forall>y \<in> set r''. isspace y)" using ne hd by (cases r'') auto
      have "rev (dropWhile isspace (rev s)) = t @ rev (dropWhile isspace (rev r'))"
        using False by (auto simp: s rstrip_append simp del: rev_append)
      also have "rev (dropWhile isspace (rev r')) = ws @ rev (dropWhile isspace (rev r''))"
        using n2 by (auto simp: r rstrip_append simp del: rev_append)
      finally have e: "rev (dropWhile isspace (rev s)) = t @ ws @ rev (dropWhile isspace (rev r''))" .
      let ?x = "rev (dropWhile isspace (rev r''))"
      have xh: "?x = [] \<or> \<not> isspace (hd ?x)"
      proof -
        obtain b bs where b: "r'' = b # bs" using ne by (cases r'') auto
        with hd have nb: "\<not> isspace b" by simp
        have "?x = b # rev (dropWhile isspace (rev bs))"
          using rstrip_append[of "[b]" bs] nb by (auto simp: b simp del: rev_append)
        then show ?thesis using nb by simp
      qed
      have "length r'' < length s"
      proof -
        have "length r'' \<le> length r'" unfolding r''_def by (rule length_dropWhile_le)
        moreover have "length r' < length s" using s tok by (auto simp: token_def)
        ultimately show ?thesis by simp
      qed
      from less.hyps[OF this] ne hd
      have IH: "collapse_spaces ?x = join_spaces (py_split r'')" by simp
      have p2: "py_split r' = py_split r''" unfolding r''_def by (simp add: py_split_dropWhile)
      obtain u us where u: "py_split r'' = u # us"
      proof (cases r'')
        case Nil
        with ne show ?thesis by simp
      next
        case (Cons b bs)
        with hd that show ?thesis by (simp add: py_split_Cons)
      qed
      have "collapse_spaces (rev (dropWhile isspace (rev s))) =
          t @ of_char CHR '' '' # collapse_spaces ?x"
        using tok collapse_spaces_run[OF wne wsp xh]
        by (simp add: e collapse_no_space token_def)
      with IH ps p2 u show ?thesis by simp
    qed
  qed
qed

lemma clean_eq_join: "collapse_spaces (py_strip s) = join_spaces (py_split s)"
proof -
  let ?s = "dropWhile isspace s"
  have "?s = [] \<or> \<not> isspace (hd ?s)" using hd_dropWhile[of isspace s] by auto
  from clean_lstripped[OF this] show ?thesis
    by (simp add: py_strip_def py_split_dropWhile)
qed

lemma isdecimal_ranges:
  "isdecimal c \<Longrightarrow>
     (48 \<le> c \<and> c \<le> 57) \<or> (1632 \<le> c \<and> c < 4250) \<or> (6112 \<le> c \<and> c < 7258) \<or> 42528 \<le> c"
  unfolding isdecimal_def decimal_zeros_def by auto

lemma isspace_ranges:
  "isspace c \<Longrightarrow>
     c \<le> 32 \<or> c = 133 \<or> c = 160 \<or> c = 5760 \<or> (8192 \<le> c \<and> c \<le> 8287) \<or> c = 12288"
  unfolding isspace_def by auto

lemma decimal_not_space: "isdecimal c \<Longrightarrow> \<not> isspace c"
  using isdecimal_ranges[of c] isspace_ranges[of c] by auto

lemma decimal_not_dot: "isdecimal c \<Longrightarrow> c \<noteq> 46"
  using isdecimal_ranges[of c] by auto

lemma decimal_not_mult: "isdecimal c \<Longrightarrow> c \<notin> set multiplier_letters"
  using isdecimal_ranges[of c] by (auto simp: multiplier_letters_def)

lemma decimal_not_unit:
  "isdecimal c \<Longrightarrow> \<not> ignorecase_eq p c" if "p \<in> set [937, 109, 115, 70, 72, 122, 104, 82]"
  using isdecimal_ranges[of c] that by (auto simp: ignorecase_eq_def ascii_letter_def)

lemma takeWhile_digits:
  "list_all isdecimal d \<Longrightarrow> r = [] \<or> \<not> isdecimal (hd r) \<Longrightarrow>
   takeWhile isdecimal (d @ r) = d \<and> dropWhile isdecimal (d @ r) = r"
  by (induction d) (auto, (cases r; simp)+)

lemma match_number_text:
  assumes "match_number s = Some (num, r)"
  shows "number_text num" and "s = num @ r"
proof -
  define d1 where "d1 = takeWhile isdecimal s"
  define r1 where "r1 = dropWhile isdecimal s"
  have m: "match_number s =
     (if d1 = [] then None
      else (case r1 of [] \<Rightarrow> Some (d1, [])
            | c # r2 \<Rightarrow> if c = of_char CHR ''.''
                then Some (d1 @ c # takeWhile isdecimal r2, dropWhile isdecimal r2)
                else Some (d1, r1)))"
    unfolding match_number_def d1_def r1_def Let_def ..
  have s: "s = d1 @ r1" by (simp add: d1_def r1_def)
  have a: "list_all isdecimal d1" unfolding d1_def by (auto simp: list_all_iff dest: set_takeWhileD)
  from assms m have d: "d1 \<noteq> []" by (auto split: if_splits)
  have "number_text num \<and> s = num @ r"
  proof (cases r1)
    case Nil
    with assms m d a s show ?thesis by (auto simp: number_text_def)
  next
    case (Cons c r2)
    show ?thesis
    proof (cases "c = of_char CHR ''.''")
      case True
      have "list_all isdecimal (takeWhile isdecimal r2)"
        by (auto simp: list_all_iff dest: set_takeWhileD)
      with assms m d a s Cons True show ?thesis
        by (auto simp: number_text_def)
    next
      case False
      with assms m d a s Cons show ?thesis by (auto simp: number_text_def)
    qed
  qed
  then show "number_text num" and "s = num @ r" by simp_all
qed

lemma match_number_digits:
  assumes "d1 \<noteq> []" "list_all isdecimal d1" "r = [] \<or> \<not> isdecimal (hd r)"
  shows "match_number (d1 @ r) =
     (case r of [] \<Rightarrow> Some (d1, [])
      | c # r2 \<Rightarrow> if c = 46 then Some (d1 @ c # takeWhile isdecimal r2, dropWhile isdecimal r2)
                  else Some (d1, r))"
proof -
  have tk: "takeWhile isdecimal (d1 @ r) = d1" and dr: "dropWhile isdecimal (d1 @ r) = r"
    using takeWhile_digits[OF assms(2,3)] by blast+
  show ?thesis unfolding match_number_def tk dr Let_def using assms(1)
    by (cases r) simp_all
qed

lemma match_number_of_text:
  assumes "number_text num" "r = [] \<or> (\<not> isdecimal (hd r) \<and> hd r \<noteq> 46)"
  shows "match_number (num @ r) = Some (num, r)"
proof -
  from assms(1) obtain d1 where d1: "d1 \<noteq> []" "list_all isdecimal d1"
    and c: "num = d1 \<or> (\<exists>d2. list_all isdecimal d2 \<and> num = d1 @ 46 # d2)"
    by (auto simp: number_text_def)
  from assms(2) have r: "r = [] \<or> \<not> isdecimal (hd r)" by auto
  from c show ?thesis
  proof
    assume n: "num = d1"
    show ?thesis unfolding n match_number_digits[OF d1 r] using assms(2)
      by (cases r) auto
  next
    assume "\<exists>d2. list_all isdecimal d2 \<and> num = d1 @ 46 # d2"
    then obtain d2 where d2: "list_all isdecimal d2" and n: "num = d1 @ 46 # d2" by blast
    have nd: "\<not> isdecimal 46" using decimal_not_dot by blast
    have tk: "takeWhile isdecimal (d2 @ r) = d2" and dr: "dropWhile isdecimal (d2 @ r) = r"
      using takeWhile_digits[OF d2 r] by blast+
    have "match_number (d1 @ (46 # d2 @ r)) = Some (d1 @ 46 # d2, r)"
      unfolding match_number_digits[OF d1, of "46 # d2 @ r", simplified, OF nd] tk dr by simp
    then show ?thesis by (simp add: n)
  qed
qed

lemma number_text_chars:
  assumes "number_text num"
  shows "num \<noteq> []" and "\<forall>c \<in> set num. isdecimal c \<or> c = 46" and "isdecimal (hd num)"
  using assms by (auto simp: number_text_def list_all_iff hd_append)

lemma normalize_mult_range:
  "m \<in> set multiplier_letters \<Longrightarrow> normalize_mult m \<in> set [112, 110, 117, 109, 107, 77, 71]"
  by (auto simp: multiplier_letters_def normalize_mult_def)

lemma match_mult_Some:
  assumes "match_mult w = Some (num, m)"
  shows "number_text num" "m \<in> set multiplier_letters"
proof -
  from assms have "match_number w = Some (num, [m])" and m: "m \<in> set multiplier_letters"
    by (auto simp: match_mult_def split: option.splits list.splits if_splits)
  from match_number_text(1)[OF this(1)] m show "number_text num" "m \<in> set multiplier_letters"
    by simp_all
qed

lemma match_mid_Some:
  assumes "match_mid w = Some (main, m, dec)"
  shows "main \<noteq> []" "list_all isdecimal main" "dec \<noteq> []" "list_all isdecimal dec"
    "m \<in> set multiplier_letters"
proof -
  from assms have a: "main = takeWhile isdecimal w" and b: "main \<noteq> [] \<and> m \<in> set multiplier_letters \<and> dec \<noteq> [] \<and> list_all isdecimal dec"
    by (auto simp: match_mid_def Let_def split: list.splits if_splits)
  from a have "list_all isdecimal main" by (auto simp: list_all_iff dest: set_takeWhileD)
  with b show "main \<noteq> []" "list_all isdecimal main" "dec \<noteq> []" "list_all isdecimal dec"
    "m \<in> set multiplier_letters" by simp_all
qed

lemma match_r_Some:
  assumes "match_r w = Some (main, dec)"
  shows "main \<noteq> []" "list_all isdecimal main" "list_all isdecimal dec"
proof -
  from assms have a: "main = takeWhile isdecimal w" and b: "main \<noteq> [] \<and> list_all isdecimal dec"
    by (auto simp: match_r_def Let_def split: list.splits if_splits)
  from a have "list_all isdecimal main" by (auto simp: list_all_iff dest: set_takeWhileD)
  with b show "main \<noteq> []" "list_all isdecimal main" "list_all isdecimal dec" by simp_all
qed

lemma match_plain_text:
  assumes "match_plain w"
  shows "number_text w"
proof (cases "match_number w")
  case None
  with assms show ?thesis by (simp add: match_plain_def)
next
  case (Some a)
  obtain num r where a: "a = (num, r)" by (cases a)
  with Some assms have "r = []" by (cases r) (simp_all add: match_plain_def)
  with Some a match_number_text[of w num r] show ?thesis by simp
qed

lemma normalize_numeric_forms:
  assumes "normalize_numeric w = Some N"
  shows "nf_mult N \<or> nf_r N \<or> nf_rdec N \<or> number_text N"
proof (cases "match_mult w")
  case (Some a)
  obtain num m where a: "a = (num, m)" by (cases a)
  with Some assms have "N = num @ [normalize_mult m]" by (simp add: normalize_numeric_def)
  with match_mult_Some[OF Some[unfolded a]] normalize_mult_range[of m]
  have "nf_mult N" unfolding nf_mult_def by blast
  then show ?thesis by simp
next
  case None
  note n1 = None
  show ?thesis
  proof (cases "match_mid w")
    case (Some a)
    obtain main m dec where a: "a = (main, m, dec)" by (cases a)
    with Some n1 assms have N: "N = (main @ 46 # dec) @ [normalize_mult m]"
      by (simp add: normalize_numeric_def)
    from match_mid_Some[OF Some[unfolded a]] have "number_text (main @ 46 # dec)"
      unfolding number_text_def by blast
    with N match_mid_Some(5)[OF Some[unfolded a]] normalize_mult_range[of m]
    have "nf_mult N" unfolding nf_mult_def by blast
    then show ?thesis by simp
  next
    case None
    note n2 = None
    show ?thesis
    proof (cases "match_r w")
      case (Some a)
      obtain main dec where a: "a = (main, dec)" by (cases a)
      note r = match_r_Some[OF Some[unfolded a]]
      show ?thesis
      proof (cases "dec = []")
        case True
        with Some a n1 n2 assms have "N = main @ [82]" by (simp add: normalize_numeric_def)
        with r have "nf_r N" unfolding nf_r_def by blast
        then show ?thesis by simp
      next
        case False
        with Some a n1 n2 assms have "N = main @ 46 # dec @ [82]" by (simp add: normalize_numeric_def)
        with r False have "nf_rdec N" unfolding nf_rdec_def by blast
        then show ?thesis by simp
      qed
    next
      case None
      with n1 n2 assms have "match_plain w" "N = w"
        by (auto simp: normalize_numeric_def split: if_splits)
      with match_plain_text show ?thesis by simp
    qed
  qed
qed

lemma forms_token:
  assumes "nf_mult N \<or> nf_r N \<or> nf_rdec N \<or> number_text N"
  shows "token N"
proof -
  have d: "list_all isdecimal d \<Longrightarrow> \<forall>c \<in> set d. \<not> isspace c" for d
    by (auto simp: list_all_iff decimal_not_space)
  have s: "\<not> isspace 46" "\<not> isspace 82" "\<forall>m \<in> set [112, 110, 117, 109, 107, 77, 71]. \<not> isspace m"
    by (simp_all add: isspace_def)
  have n: "number_text num \<Longrightarrow> num \<noteq> [] \<and> (\<forall>c \<in> set num. \<not> isspace c)" for num
    using number_text_chars(1,2)[of num] s(1) decimal_not_space by auto
  from assms consider "nf_mult N" | "nf_r N" | "nf_rdec N" | "number_text N" by blast
  then show ?thesis
  proof cases
    case 1
    then obtain num m where "number_text num" "m \<in> set [112, 110, 117, 109, 107, 77, 71]" "N = num @ [m]"
      unfolding nf_mult_def by blast
    with n[of num] s(3) show ?thesis unfolding token_def by auto
  next
    case 2
    then obtain main where "main \<noteq> []" "list_all isdecimal main" "N = main @ [82]"
      unfolding nf_r_def by blast
    with d[of main] s(2) show ?thesis unfolding token_def by auto
  next
    case 3
    then obtain main dec where "main \<noteq> []" "list_all isdecimal main" "list_all isdecimal dec"
      "N = main @ 46 # dec @ [82]"
      unfolding nf_rdec_def by blast
    with d[of main] d[of dec] s(1,2) show ?thesis unfolding token_def by auto
  next
    case 4
    with n[of N] show ?thesis unfolding token_def by simp
  qed
qed

lemma match_mid_digits:
  assumes "list_all isdecimal d" "r = [] \<or> \<not> isdecimal (hd r)"
  shows "match_mid (d @ r) =
     (case r of [] \<Rightarrow> None
      | m # dec \<Rightarrow> if d \<noteq> [] \<and> m \<in> set multiplier_letters \<and> dec \<noteq> [] \<and> list_all isdecimal dec
                  then Some (d, m, dec) else None)"
proof -
  have tk: "takeWhile isdecimal (d @ r) = d" and dr: "dropWhile isdecimal (d @ r) = r"
    using takeWhile_digits[OF assms] by blast+
  show ?thesis unfolding match_mid_def tk dr Let_def ..
qed

lemma match_r_digits:
  assumes "list_all isdecimal d" "r = [] \<or> \<not> isdecimal (hd r)"
  shows "match_r (d @ r) =
     (case r of [] \<Rightarrow> None
      | c # dec \<Rightarrow> if d \<noteq> [] \<and> ignorecase_eq (of_char CHR ''R'') c \<and> list_all isdecimal dec
                  then Some (d, dec) else None)"
proof -
  have tk: "takeWhile isdecimal (d @ r) = d" and dr: "dropWhile isdecimal (d @ r) = r"
    using takeWhile_digits[OF assms] by blast+
  show ?thesis unfolding match_r_def tk dr Let_def ..
qed

lemma not_decimal_chars:
  "\<not> isdecimal 46" "\<not> isdecimal 82" "\<forall>m \<in> set [112, 110, 117, 109, 107, 77, 71]. \<not> isdecimal m"
  using isdecimal_ranges[of 46] isdecimal_ranges[of 82]
    isdecimal_ranges[of 112] isdecimal_ranges[of 110] isdecimal_ranges[of 117]
    isdecimal_ranges[of 109] isdecimal_ranges[of 107] isdecimal_ranges[of 77]
    isdecimal_ranges[of 71]
  by auto

lemma normalize_nf_mult:
  assumes "nf_mult N"
  shows "normalize_numeric N = Some N"
proof -
  from assms obtain num m where n: "number_text num"
    and m: "m \<in> set [112, 110, 117, 109, 107, 77, 71]" and N: "N = num @ [m]"
    unfolding nf_mult_def by blast
  from m not_decimal_chars(3) have "\<not> isdecimal m" "m \<noteq> 46" by auto
  then have "match_number (num @ [m]) = Some (num, [m])"
    using match_number_of_text[OF n, of "[m]"] by simp
  moreover from m have "m \<in> set multiplier_letters" "normalize_mult m = m"
    by (auto simp: multiplier_letters_def normalize_mult_def)
  ultimately show ?thesis
    by (simp add: N normalize_numeric_def match_mult_def)
qed

lemma normalize_nf_r:
  assumes "nf_r N"
  shows "normalize_numeric N = Some N"
proof -
  from assms obtain main where ne: "main \<noteq> []" and d: "list_all isdecimal main" and N: "N = main @ [82]"
    unfolding nf_r_def by blast
  have n: "number_text main" using ne d unfolding number_text_def by blast
  have "match_number (main @ [82]) = Some (main, [82])"
    using match_number_of_text[OF n, of "[82]"] not_decimal_chars(2) by simp
  then have a: "match_mult N = None"
    by (simp add: N match_mult_def multiplier_letters_def)
  have b: "match_mid N = None"
    unfolding N using match_mid_digits[OF d, of "[82]"] not_decimal_chars(2) by simp
  have c: "match_r N = Some (main, [])"
    unfolding N using match_r_digits[OF d, of "[82]"] not_decimal_chars(2) ne
    by (simp add: ignorecase_eq_def ascii_letter_def)
  show ?thesis unfolding normalize_numeric_def a b c by (simp add: N)
qed

lemma normalize_nf_rdec:
  assumes "nf_rdec N"
  shows "normalize_numeric N = None"
proof -
  from assms obtain main dec where ne: "main \<noteq> []" "dec \<noteq> []"
    and d: "list_all isdecimal main" "list_all isdecimal dec" and N: "N = main @ 46 # dec @ [82]"
    unfolding nf_rdec_def by blast
  have n: "number_text (main @ 46 # dec)" using ne d unfolding number_text_def by blast
  have m: "match_number N = Some (main @ 46 # dec, [82])"
    using match_number_of_text[OF n, of "[82]"] not_decimal_chars(2) by (simp add: N)
  then have a: "match_mult N = None" "\<not> match_plain N"
    by (simp_all add: match_mult_def match_plain_def multiplier_letters_def)
  have b: "match_mid N = None"
    unfolding N using match_mid_digits[OF d(1), of "46 # dec @ [82]"] not_decimal_chars(1)
    by (simp add: multiplier_letters_def)
  have c: "match_r N = None"
    unfolding N using match_r_digits[OF d(1), of "46 # dec @ [82]"] not_decimal_chars(1)
    by (simp add: ignorecase_eq_def ascii_letter_def)
  show ?thesis by (simp add: normalize_numeric_def a b c)
qed

lemma normalize_number_text:
  assumes "number_text N"
  shows "normalize_numeric N = Some N"
proof -
  have m: "match_number N = Some (N, [])"
    using match_number_of_text[OF assms, of "[]"] by simp
  then have a: "match_mult N = None" "match_plain N"
    by (simp_all add: match_mult_def match_plain_def)
  from assms obtain d1 where d1: "d1 \<noteq> []" "list_all isdecimal d1"
    and c: "N = d1 \<or> (\<exists>d2. list_all isdecimal d2 \<and> N = d1 @ 46 # d2)"
    by (auto simp: number_text_def)
  have "match_mid N = None \<and> match_r N = None"
  proof -
    from c consider "N = d1 @ []" | d2 where "N = d1 @ 46 # d2" by auto
    then show ?thesis
    proof cases
      case 1
      show ?thesis unfolding 1
        using match_mid_digits[OF d1(2), of "[]"] match_r_digits[OF d1(2), of "[]"] by simp
    next
      case 2
      show ?thesis unfolding 2
        using match_mid_digits[OF d1(2), of "46 # d2"] match_r_digits[OF d1(2), of "46 # d2"]
          not_decimal_chars(1)
        by (simp add: multiplier_letters_def ignorecase_eq_def ascii_letter_def)
    qed
  qed
  with a show ?thesis by (simp add: normalize_numeric_def)
qed

lemma normalize_numeric_fixed:
  assumes "nf_mult N \<or> nf_r N \<or> nf_rdec N \<or> number_text N"
  shows "normalize_numeric N = Some N \<or> normalize_numeric N = None"
  using assms
  by (auto simp: normalize_nf_mult normalize_nf_r normalize_nf_rdec normalize_number_text)

lemma strip_unit_last:
  assumes "u \<noteq> []" "\<not> ignorecase_eq (last u) (last N)"
  shows "strip_unit N u = N"
proof -
  have "\<not> (length u \<le> length N \<and> list_all2 ignorecase_eq u (drop (length N - length u) N))"
  proof
    assume a: "length u \<le> length N \<and> list_all2 ignorecase_eq u (drop (length N - length u) N)"
    let ?i = "length u - 1"
    from assms(1) have i: "?i < length u" by (cases u) auto
    from a i have "ignorecase_eq (u ! ?i) (drop (length N - length u) N ! ?i)"
      by (auto dest: list_all2_nthD)
    moreover have "u ! ?i = last u" using assms(1) by (simp add: last_conv_nth)
    moreover have "drop (length N - length u) N ! ?i = last N"
    proof -
      from a assms(1) have "N \<noteq> []" by auto
      moreover from a i have "length N - length u + ?i = length N - 1" by simp
      ultimately show ?thesis using a i by (simp add: last_conv_nth)
    qed
    ultimately show False using assms(2) by simp
  qed
  then show ?thesis by (auto simp: strip_unit_def Let_def)
qed

lemma strip_unit_last2:
  assumes "2 \<le> length u" "\<not> ignorecase_eq (u ! (length u - 2)) (N ! (length N - 2))"
  shows "strip_unit N u = N"
proof -
  have "\<not> (length u \<le> length N \<and> list_all2 ignorecase_eq u (drop (length N - length u) N))"
  proof
    assume a: "length u \<le> length N \<and> list_all2 ignorecase_eq u (drop (length N - length u) N)"
    let ?i = "length u - 2"
    from assms(1) have i: "?i < length u" by simp
    from a i have "ignorecase_eq (u ! ?i) (drop (length N - length u) N ! ?i)"
      by (auto dest: list_all2_nthD)
    moreover have "drop (length N - length u) N ! ?i = N ! (length N - 2)"
    proof -
      from a assms(1) have "length N - length u + ?i = length N - 2" by simp
      then show ?thesis using a i by simp
    qed
    ultimately show False using assms(2) by simp
  qed
  then show ?thesis by (auto simp: strip_unit_def Let_def)
qed

lemma strip_units_fixed:
  assumes c1: "\<forall>p \<in> set [937, 115, 70, 72, 122]. \<not> ignorecase_eq p (last N)"
    and c2: "\<not> ignorecase_eq 109 (last N) \<or> \<not> ignorecase_eq 104 (N ! (length N - 2))"
  shows "strip_units N = N"
proof -
  have u: "strip_unit N u = N" if "u \<in> set units_to_strip" for u
  proof -
    from that consider
      "last u \<in> set [937, 115, 70, 72, 122]" "u \<noteq> []"
      | "last u = 109" "u \<noteq> []" "2 \<le> length u" "u ! (length u - 2) = 104"
      by (auto simp: units_to_strip_def str_def)
    then show ?thesis
    proof cases
      case 1
      with c1 show ?thesis by (intro strip_unit_last) auto
    next
      case 2
      from c2 show ?thesis
      proof
        assume "\<not> ignorecase_eq 109 (last N)"
        with 2 show ?thesis by (intro strip_unit_last) auto
      next
        assume "\<not> ignorecase_eq 104 (N ! (length N - 2))"
        with 2 show ?thesis by (intro strip_unit_last2) auto
      qed
    qed
  qed
  have "foldl strip_unit N us = N" if "set us \<subseteq> set units_to_strip" for us
    using that by (induction us) (auto simp: u)
  then show ?thesis by (simp add: strip_units_def)
qed

lemma not_unit_46: "\<not> ignorecase_eq p 46" if "p \<in> set [937, 109, 115, 70, 72, 122, 104, 82]"
  using that by (auto simp: ignorecase_eq_def ascii_letter_def)

lemma number_text_last:
  assumes "number_text num"
  shows "isdecimal (last num) \<or> last num = 46"
  using number_text_chars(1,2)[OF assms] last_in_set[of num] by blast

lemma strip_units_forms:
  assumes "nf_mult N \<or> nf_r N \<or> nf_rdec N \<or> number_text N"
  shows "strip_units N = N"
proof -
  from assms consider "nf_mult N" | "nf_r N \<or> nf_rdec N" | "number_text N" by blast
  then show ?thesis
  proof cases
    case 1
    then obtain num m where n: "number_text num"
      and m: "m \<in> set [112, 110, 117, 109, 107, 77, 71]" and N: "N = num @ [m]"
      unfolding nf_mult_def by blast
    have l: "last N = m" by (simp add: N)
    have "N ! (length N - 2) = last num"
      using number_text_chars(1)[OF n] by (simp add: N nth_append last_conv_nth)
    with number_text_last[OF n] have "\<not> ignorecase_eq 104 (N ! (length N - 2))"
      using decimal_not_unit[of 104] not_unit_46[of 104] by auto
    moreover have "\<forall>p \<in> set [937, 115, 70, 72, 122]. \<not> ignorecase_eq p (last N)"
      using m by (auto simp: l ignorecase_eq_def ascii_letter_def)
    ultimately show ?thesis by (intro strip_units_fixed) auto
  next
    case 2
    then have l: "last N = 82" by (auto simp: nf_r_def nf_rdec_def)
    show ?thesis
      by (intro strip_units_fixed) (auto simp: l ignorecase_eq_def ascii_letter_def)
  next
    case 3
    from number_text_last[OF 3] have "\<not> ignorecase_eq p (last N)"
      if "p \<in> set [937, 109, 115, 70, 72, 122, 104, 82]" for p
      using decimal_not_unit[OF that] not_unit_46[OF that] by auto
    then show ?thesis by (intro strip_units_fixed) auto
  qed
qed

lemma join_spaces_ends:
  assumes "ts \<noteq> []" "\<forall>t \<in> set ts. token t"
  shows "join_spaces ts \<noteq> []" and "hd (join_spaces ts) = hd (hd ts)"
    and "last (join_spaces ts) = last (last ts)"
  using assms
  by (induction ts rule: join_spaces.induct) (auto simp: token_def)

lemma py_strip_join:
  assumes "\<forall>t \<in> set ts. token t"
  shows "py_strip (join_spaces ts) = join_spaces ts"
proof (cases ts)
  case Nil
  then show ?thesis by (simp add: py_strip_def)
next
  case (Cons t r)
  let ?x = "join_spaces ts"
  from Cons have ne: "ts \<noteq> []" by simp
  note e = join_spaces_ends[OF ne assms]
  have "token (hd ts)" "token (last ts)" using ne assms by auto
  then have h: "\<not> isspace (hd ?x)" and l: "\<not> isspace (last ?x)"
    using e(2,3) by (auto simp: token_def)
  from e(1) h have a: "dropWhile isspace ?x = ?x" by (cases ?x) auto
  from e(1) l have "dropWhile isspace (rev ?x) = rev ?x"
    by (cases "rev ?x") (auto simp: hd_rev[symmetric])
  with a show ?thesis by (simp add: py_strip_def)
qed

lemma with_suffix_join:
  assumes "token N" "\<forall>t \<in> set rest. token t"
  shows "with_suffix N (join_spaces rest) = join_spaces (N # rest)"
proof (cases rest)
  case Nil
  then show ?thesis by (simp add: with_suffix_def)
next
  case (Cons r rs)
  then have "join_spaces rest \<noteq> []" using join_spaces_ends(1)[of rest] assms(2) by simp
  moreover have "N @ of_char CHR '' '' # join_spaces rest = join_spaces (N # rest)"
    by (simp add: Cons)
  moreover have "py_strip (join_spaces (N # rest)) = join_spaces (N # rest)"
    using assms by (intro py_strip_join) auto
  ultimately show ?thesis by (simp add: with_suffix_def)
qed

lemma normalize_value_eq:
  assumes "value_str \<noteq> []" "component_type \<in> set VALUE_PARSE_TYPES"
  shows "normalize_value value_str component_type =
     (case py_split value_str of
        [] \<Rightarrow> []
      | numeric_part # rest \<Rightarrow>
          (case normalize_numeric (strip_units numeric_part) of
             Some N \<Rightarrow> join_spaces (N # rest)
           | None \<Rightarrow> join_spaces (numeric_part # rest)))"
proof -
  have tk: "\<forall>t \<in> set (py_split value_str). token t" using py_split_tokens by blast
  have c: "collapse_spaces (py_strip value_str) = join_spaces (py_split value_str)"
    by (rule clean_eq_join)
  have s: "py_split (join_spaces (py_split value_str)) = py_split value_str"
    using tk by (rule py_split_join)
  show ?thesis
  proof (cases "py_split value_str")
    case Nil
    with assms c s show ?thesis by (simp add: normalize_value_def)
  next
    case (Cons np rest)
    with tk have r: "\<forall>t \<in> set rest. token t" by simp
    have sf: "(if 1 < length (np # rest) then join_spaces rest else []) = join_spaces rest"
      by (cases rest) simp_all
    show ?thesis
    proof (cases "normalize_numeric (strip_units np)")
      case None
      with assms c s Cons show ?thesis by (simp add: normalize_value_def Let_def)
    next
      case (Some N)
      from forms_token[OF normalize_numeric_forms[OF Some]] have "token N" .
      from with_suffix_join[OF this r] assms c s Cons Some sf show ?thesis
        by (simp add: normalize_value_def Let_def del: join_spaces.simps)
    qed
  qed
qed

lemma normalize_value_tokens:
  assumes "token X" "\<forall>t \<in> set rest. token t" "component_type \<in> set VALUE_PARSE_TYPES"
  shows "normalize_value (join_spaces (X # rest)) component_type =
     (case normalize_numeric (strip_units X) of
        Some N \<Rightarrow> join_spaces (N # rest)
      | None \<Rightarrow> join_spaces (X # rest))"
proof -
  have a: "\<forall>t \<in> set (X # rest). token t" using assms by simp
  have "join_spaces (X # rest) \<noteq> []" using join_spaces_ends(1)[OF _ a] by simp
  from normalize_value_eq[OF this assms(3)] py_split_join[OF a] show ?thesis by simp
qed

text \<open>
  Claim C3. For every value text and every value-bearing type, normalizing a normalized
  value gives the same text again.
\<close>

theorem normalize_value_idempotent:
  assumes "component_type \<in> set VALUE_PARSE_TYPES"
  shows "normalize_value (normalize_value value_str component_type) component_type =
     normalize_value value_str component_type"
proof (cases "value_str = []")
  case True
  then show ?thesis by (simp add: normalize_value_def)
next
  case False
  note e = normalize_value_eq[OF False assms]
  have tk: "\<forall>t \<in> set (py_split value_str). token t" using py_split_tokens by blast
  show ?thesis
  proof (cases "py_split value_str")
    case Nil
    with e show ?thesis by (simp add: normalize_value_def)
  next
    case (Cons np rest)
    with tk have np: "token np" and r: "\<forall>t \<in> set rest. token t" by simp_all
    show ?thesis
    proof (cases "normalize_numeric (strip_units np)")
      case None
      with e Cons have "normalize_value value_str component_type = join_spaces (np # rest)"
        by simp
      moreover from normalize_value_tokens[OF np r assms] None
      have "normalize_value (join_spaces (np # rest)) component_type = join_spaces (np # rest)"
        by simp
      ultimately show ?thesis by simp
    next
      case (Some N)
      note f = normalize_numeric_forms[OF Some]
      from e Cons Some have v: "normalize_value value_str component_type = join_spaces (N # rest)"
        by simp
      from normalize_value_tokens[OF forms_token[OF f] r assms] strip_units_forms[OF f]
        normalize_numeric_fixed[OF f]
      have "normalize_value (join_spaces (N # rest)) component_type = join_spaces (N # rest)"
        by auto
      with v show ?thesis by simp
    qed
  qed
qed

theorem normalize_value_idempotent_witness:
  "str ''R'' \<in> set VALUE_PARSE_TYPES \<and>
   normalize_value (str '' 10kOhm   1%  '') (str ''R'') = str ''10k 1%'' \<and>
   normalize_value (str ''10k 1%'') (str ''R'') = str ''10k 1%''"
proof -
  have a: "str ''R'' \<in> set VALUE_PARSE_TYPES" by (simp add: VALUE_PARSE_TYPES_def)
  have b: "normalize_value (str '' 10kOhm   1%  '') (str ''R'') = str ''10k 1%''"
    by (simp add: eval_simps eval_normalize)
  from normalize_value_idempotent[OF a, of "str '' 10kOhm   1%  ''"] a b show ?thesis by simp
qed

section \<open>Properties of \<open>extract_voltage\<close>\<close>

lemma voltage_text_chars:
  assumes "voltage_text g"
  shows "g \<noteq> []" and "isdecimal (hd g)" and "\<forall>c \<in> set g. \<not> isspace c"
proof -
  from assms obtain num where n: "number_text num" and g: "g = num @ [86]"
    by (auto simp: voltage_text_def)
  show "g \<noteq> []" by (simp add: g)
  show "isdecimal (hd g)" using number_text_chars(1,3)[OF n] by (simp add: g)
  have "\<not> isspace 86" "\<not> isspace 46" by (simp_all add: isspace_def)
  then show "\<forall>c \<in> set g. \<not> isspace c"
    using number_text_chars(2)[OF n] decimal_not_space by (auto simp: g)
qed

lemma match_voltage_of_text:
  assumes "voltage_text g"
  shows "match_voltage (g @ b) = Some (g, dropWhile isspace b)"
proof -
  from assms obtain num where n: "number_text num" and g: "g = num @ [86]"
    by (auto simp: voltage_text_def)
  have "\<not> isdecimal 86" using isdecimal_ranges[of 86] by auto
  then have m: "match_number (num @ 86 # b) = Some (num, 86 # b)"
    using match_number_of_text[OF n, of "86 # b"] by simp
  have "\<not> isspace (hd (g @ b))" using voltage_text_chars[OF assms] by (cases g) auto
  then have d: "dropWhile isspace (g @ b) = g @ b"
    using voltage_text_chars(1)[OF assms] by (cases g) auto
  show ?thesis unfolding match_voltage_def d by (simp add: g m)
qed

lemma match_voltage_Some:
  assumes "match_voltage s = Some (g, r)"
  shows "voltage_text g"
    and "\<exists>ws ws'. s = ws @ g @ ws' @ r \<and> (\<forall>c \<in> set ws. isspace c) \<and> (\<forall>c \<in> set ws'. isspace c)"
proof -
  from assms obtain num c r' where
    m: "match_number (dropWhile isspace s) = Some (num, c # r')" and c: "c = of_char CHR ''V''"
    and g: "g = num @ [c]" and r: "r = dropWhile isspace r'"
    by (auto simp: match_voltage_def split: option.splits list.splits if_splits)
  from match_number_text[OF m] have n: "number_text num"
    and d: "dropWhile isspace s = num @ c # r'" by simp_all
  from n g c show "voltage_text g" by (auto simp: voltage_text_def)
  have "s = takeWhile isspace s @ dropWhile isspace s" by simp
  also have "\<dots> = takeWhile isspace s @ g @ takeWhile isspace r' @ r"
    by (simp add: d g r)
  finally have "s = takeWhile isspace s @ g @ takeWhile isspace r' @ r" .
  moreover have "\<forall>c \<in> set (takeWhile isspace s). isspace c" "\<forall>c \<in> set (takeWhile isspace r'). isspace c"
    by (auto dest: set_takeWhileD)
  ultimately show "\<exists>ws ws'. s = ws @ g @ ws' @ r \<and> (\<forall>c \<in> set ws. isspace c) \<and> (\<forall>c \<in> set ws'. isspace c)"
    by blast
qed

lemma search_voltage_Some:
  "search_voltage s = Some (p, g, r) \<Longrightarrow>
   (\<exists>x. s = p @ x \<and> match_voltage x = Some (g, r)) \<and>
   (\<forall>i < length p. match_voltage (drop i s) = None)"
proof (induction s arbitrary: p)
  case Nil
  then show ?case by simp
next
  case (Cons c cs)
  show ?case
  proof (cases "match_voltage (c # cs)")
    case (Some a)
    with Cons.prems show ?thesis by (cases a) auto
  next
    case None
    with Cons.prems obtain p' where p: "p = c # p'" and s: "search_voltage cs = Some (p', g, r)"
      by (auto split: option.splits)
    from Cons.IH[OF s] obtain x where x: "cs = p' @ x" "match_voltage x = Some (g, r)"
      and n: "\<forall>i < length p'. match_voltage (drop i cs) = None" by blast
    have "\<forall>i < length p. match_voltage (drop i (c # cs)) = None"
    proof (intro allI impI)
      fix i assume "i < length p"
      then show "match_voltage (drop i (c # cs)) = None"
        using None n p by (cases i) auto
    qed
    with x p show ?thesis by auto
  qed
qed

lemma search_voltage_finds:
  "match_voltage (drop i s) = Some a \<Longrightarrow> i \<le> length s \<Longrightarrow>
   \<exists>p g r. search_voltage s = Some (p, g, r) \<and> length p \<le> i"
proof (induction s arbitrary: i)
  case Nil
  then show ?case by (simp add: match_voltage_def match_number_def)
next
  case (Cons c cs)
  show ?case
  proof (cases "match_voltage (c # cs)")
    case (Some b)
    then show ?thesis by (cases b) auto
  next
    case None
    with Cons.prems obtain j where i: "i = Suc j" by (cases i) auto
    with Cons.prems have "match_voltage (drop j cs) = Some a" "j \<le> length cs" by simp_all
    from Cons.IH[OF this] obtain p g r where "search_voltage cs = Some (p, g, r)" "length p \<le> j"
      by blast
    with None i show ?thesis by auto
  qed
qed

lemma search_voltage_None_iff: "search_voltage s = None \<longleftrightarrow> \<not> contains_voltage s"
proof
  assume n: "search_voltage s = None"
  show "\<not> contains_voltage s"
  proof
    assume "contains_voltage s"
    then obtain a g b where g: "voltage_text g" and s: "s = a @ g @ b"
      by (auto simp: contains_voltage_def)
    have "match_voltage (drop (length a) s) = Some (g, dropWhile isspace b)"
      using match_voltage_of_text[OF g] by (simp add: s)
    from search_voltage_finds[OF this] n show False by (simp add: s)
  qed
next
  assume c: "\<not> contains_voltage s"
  show "search_voltage s = None"
  proof (rule ccontr)
    assume "search_voltage s \<noteq> None"
    then obtain p g r where "search_voltage s = Some (p, g, r)" by auto
    from search_voltage_Some[OF this] obtain x where x: "s = p @ x" "match_voltage x = Some (g, r)"
      by blast
    from match_voltage_Some[OF x(2)] x(1) have "contains_voltage s"
      unfolding contains_voltage_def by (metis append.assoc)
    with c show False by simp
  qed
qed

lemma contains_voltage_sub:
  "contains_voltage t \<Longrightarrow> contains_voltage (a @ t @ b)"
  unfolding contains_voltage_def by (metis append.assoc)

lemma contains_voltage_split:
  assumes "contains_voltage (p @ c # x)" "isspace c"
  shows "contains_voltage p \<or> contains_voltage x"
proof -
  from assms(1) obtain a g b where g: "voltage_text g" and e: "p @ c # x = a @ g @ b"
    by (auto simp: contains_voltage_def)
  note ns = voltage_text_chars(3)[OF g]
  from e have "p @ [c] @ x = a @ g @ b" by simp
  consider (left) "length (a @ g) \<le> length p" | (right) "length p < length a"
    | (mid) "length a \<le> length p" "length p < length (a @ g)" by linarith
  then show ?thesis
  proof cases
    case left
    from e have "take (length (a @ g)) (p @ c # x) = a @ g" by simp
    with left have "take (length (a @ g)) p = a @ g" by simp
    then have "p = a @ g @ drop (length (a @ g)) p"
      by (metis append.assoc append_take_drop_id)
    with g show ?thesis unfolding contains_voltage_def by blast
  next
    case right
    from e have "drop (Suc (length p)) (p @ c # x) = drop (Suc (length p)) (a @ g @ b)" by simp
    with right have "x = drop (Suc (length p)) a @ g @ b" by simp
    with g show ?thesis unfolding contains_voltage_def by blast
  next
    case mid
    from mid have lt: "length p - length a < length g" by simp
    from e have "(p @ c # x) ! length p = (a @ g @ b) ! length p" by simp
    also have "(a @ g @ b) ! length p = (g @ b) ! (length p - length a)"
      using mid(1) by (simp add: nth_append)
    also have "\<dots> = g ! (length p - length a)" using lt by (simp add: nth_append)
    finally have "c = g ! (length p - length a)" by simp
    with lt have "c \<in> set g" by simp
    with ns assms(2) show ?thesis by blast
  qed
qed

lemma search_prefix_clean:
  assumes "search_voltage s = Some (p, g, r)"
  shows "\<not> contains_voltage p"
proof
  assume "contains_voltage p"
  then obtain a g' b where g': "voltage_text g'" and p: "p = a @ g' @ b"
    by (auto simp: contains_voltage_def)
  from search_voltage_Some[OF assms] obtain x where x: "s = p @ x"
    and n: "\<forall>i < length p. match_voltage (drop i s) = None" by blast
  have "length a < length p" using voltage_text_chars(1)[OF g'] by (simp add: p)
  with n have "match_voltage (drop (length a) s) = None" by blast
  moreover have "drop (length a) s = g' @ (b @ x)" by (simp add: x p)
  ultimately show False using match_voltage_of_text[OF g', of "b @ x"] by simp
qed

lemma sub_voltage_clean: "\<not> contains_voltage (sub_voltage s)"
proof (induction s rule: sub_voltage.induct)
  case (1 s)
  show ?case
  proof (cases "search_voltage s")
    case None
    then show ?thesis
      by (subst sub_voltage.simps) (simp add: search_voltage_None_iff[symmetric])
  next
    case (Some a)
    obtain p g r where a: "a = (p, g, r)" by (cases a)
    from "1.IH"[OF Some[unfolded a] refl refl] have "\<not> contains_voltage (sub_voltage r)" .
    moreover have "\<not> contains_voltage p" using search_prefix_clean[OF Some[unfolded a]] .
    moreover have "isspace (of_char CHR '' '')" by (simp add: isspace_def)
    ultimately have "\<not> contains_voltage (p @ of_char CHR '' '' # sub_voltage r)"
      using contains_voltage_split by blast
    with Some a show ?thesis by (subst sub_voltage.simps) simp
  qed
qed

lemma py_split_substring: "t \<in> set (py_split y) \<Longrightarrow> \<exists>a b. y = a @ t @ b"
proof (induction y arbitrary: t rule: py_split.induct)
  case (1 s)
  show ?case
  proof (cases "dropWhile isspace s")
    case Nil
    with "1.prems" show ?thesis by (subst (asm) py_split.simps) simp
  next
    case (Cons c r)
    let ?t = "takeWhile (\<lambda>c. \<not> isspace c) (c # r)" and ?d = "dropWhile (\<lambda>c. \<not> isspace c) (c # r)"
    have "s = takeWhile isspace s @ dropWhile isspace s" by simp
    also have "dropWhile isspace s = ?t @ ?d" unfolding Cons by simp
    finally have s: "s = takeWhile isspace s @ ?t @ ?d" .
    from "1.prems" Cons have "t = ?t \<or> t \<in> set (py_split ?d)"
      by (subst (asm) py_split.simps) (simp add: Let_def)
    then show ?thesis
    proof
      assume "t = ?t"
      with s show ?thesis by blast
    next
      assume "t \<in> set (py_split ?d)"
      then obtain a b where "?d = a @ t @ b"
        using "1.IH"[of "c # r" t] Cons by auto
      then have "s = (takeWhile isspace s @ ?t @ a) @ t @ b" using s by simp
      then show ?thesis by blast
    qed
  qed
qed

lemma contains_voltage_join:
  "contains_voltage (join_spaces ts) \<Longrightarrow> \<exists>t \<in> set ts. contains_voltage t"
proof (induction ts rule: join_spaces.induct)
  case 1
  then have False
    using voltage_text_chars(1) by (auto simp: contains_voltage_def)
  then show ?case ..
next
  case (2 t)
  then show ?case by simp
next
  case (3 t v va)
  have "isspace (of_char CHR '' '')" by (simp add: isspace_def)
  with "3.prems" have "contains_voltage t \<or> contains_voltage (join_spaces (v # va))"
    using contains_voltage_split[of t "of_char CHR '' ''" "join_spaces (v # va)"] by simp
  with "3.IH" show ?case by auto
qed

lemma clean_keeps_clean:
  assumes "\<not> contains_voltage y"
  shows "\<not> contains_voltage (collapse_spaces (py_strip y))"
proof
  assume "contains_voltage (collapse_spaces (py_strip y))"
  then have "contains_voltage (join_spaces (py_split y))" by (simp add: clean_eq_join)
  from contains_voltage_join[OF this] obtain t where t: "t \<in> set (py_split y)"
    and c: "contains_voltage t" by blast
  from py_split_substring[OF t] obtain a b where "y = a @ t @ b" by blast
  with contains_voltage_sub[OF c, of a b] assms show False by simp
qed

lemma first_match:
  assumes "search_voltage s = Some (p, g, r)"
  shows "\<exists>a b. s = a @ g @ b \<and> voltage_text g \<and>
     (\<forall>a' g' b'. s = a' @ g' @ b' \<and> voltage_text g' \<longrightarrow> length a \<le> length a')"
proof -
  from search_voltage_Some[OF assms] obtain x where x: "s = p @ x" "match_voltage x = Some (g, r)"
    and n: "\<forall>i < length p. match_voltage (drop i s) = None" by blast
  from match_voltage_Some[OF x(2)] obtain ws ws' where g: "voltage_text g"
    and e: "x = ws @ g @ ws' @ r" and w: "\<forall>c \<in> set ws. isspace c" by blast
  have s: "s = (p @ ws) @ g @ (ws' @ r)" by (simp add: x e)
  have "length (p @ ws) \<le> length a'" if a: "s = a' @ g' @ b'" and g': "voltage_text g'" for a' g' b'
  proof (rule ccontr)
    assume "\<not> length (p @ ws) \<le> length a'"
    then have lt: "length a' < length p + length ws" by simp
    have "match_voltage (drop (length a') s) = Some (g', dropWhile isspace b')"
      using match_voltage_of_text[OF g'] by (simp add: a)
    with n have ge: "length p \<le> length a'" by (metis not_less option.distinct(1))
    have "s ! length a' = hd g'"
      using voltage_text_chars(1)[OF g'] by (simp add: a nth_append hd_conv_nth)
    moreover have "s ! length a' = ws ! (length a' - length p)"
    proof -
      from ge lt have l2: "length a' - length p < length ws" by simp
      have "s ! length a' = (p @ (ws @ g @ ws' @ r)) ! length a'" by (simp add: s)
      also have "\<dots> = (ws @ g @ ws' @ r) ! (length a' - length p)"
        using ge by (simp add: nth_append)
      also have "\<dots> = ws ! (length a' - length p)" using l2 by (simp add: nth_append)
      finally show ?thesis .
    qed
    moreover have "ws ! (length a' - length p) \<in> set ws" using ge lt by simp
    ultimately have "isspace (hd g')" using w by simp
    with voltage_text_chars(2)[OF g'] decimal_not_space show False by blast
  qed
  with s g show ?thesis by blast
qed

lemma py_split_append_space:
  assumes "isspace c"
  shows "py_split (p @ c # x) = py_split p @ py_split x"
proof (induction p rule: py_split.induct)
  case (1 s)
  show ?case
  proof (cases "dropWhile isspace s")
    case Nil
    then have a: "\<forall>y \<in> set s. isspace y" by (simp add: dropWhile_eq_Nil_conv)
    then have "dropWhile isspace (s @ c # x) = dropWhile isspace x"
      using assms by (simp add: dropWhile_append)
    then have "py_split (s @ c # x) = py_split x"
      by (metis py_split_dropWhile)
    with py_split_spaces[OF a] show ?thesis by simp
  next
    case (Cons d r)
    then have nd: "\<not> isspace d" using hd_dropWhile[of isspace s] by auto
    have "d \<in> set (dropWhile isspace s)" by (simp add: Cons)
    then have "d \<in> set s" by (rule set_dropWhileD)
    with nd have ne: "\<not> (\<forall>y \<in> set s. isspace y)" by blast
    then have e: "dropWhile isspace (s @ c # x) = (d # r) @ c # x"
      using Cons by (auto simp: dropWhile_append)
    have t: "takeWhile (\<lambda>c. \<not> isspace c) ((d # r) @ c # x) = takeWhile (\<lambda>c. \<not> isspace c) (d # r)"
      and dr: "dropWhile (\<lambda>c. \<not> isspace c) ((d # r) @ c # x) =
        dropWhile (\<lambda>c. \<not> isspace c) (d # r) @ c # x"
    proof -
      show "takeWhile (\<lambda>c. \<not> isspace c) ((d # r) @ c # x) = takeWhile (\<lambda>c. \<not> isspace c) (d # r)"
      proof (cases "\<forall>y \<in> set (d # r). \<not> isspace y")
        case True
        then have "takeWhile (\<lambda>c. \<not> isspace c) ((d # r) @ c # x) =
            (d # r) @ takeWhile (\<lambda>c. \<not> isspace c) (c # x)"
          by (intro takeWhile_append2) auto
        moreover from True have "takeWhile (\<lambda>c. \<not> isspace c) (d # r) = d # r"
          by (intro takeWhile_eq_all_conv[THEN iffD2]) auto
        ultimately show ?thesis using assms by simp
      next
        case False
        then obtain y where "y \<in> set (d # r)" "\<not> \<not> isspace y" by blast
        then show ?thesis by (rule takeWhile_append1)
      qed
      show "dropWhile (\<lambda>c. \<not> isspace c) ((d # r) @ c # x) =
          dropWhile (\<lambda>c. \<not> isspace c) (d # r) @ c # x"
      proof (cases "\<forall>y \<in> set (d # r). \<not> isspace y")
        case True
        then have "dropWhile (\<lambda>c. \<not> isspace c) ((d # r) @ c # x) =
            dropWhile (\<lambda>c. \<not> isspace c) (c # x)"
          by (intro dropWhile_append2) auto
        moreover from True have "dropWhile (\<lambda>c. \<not> isspace c) (d # r) = []"
          by (intro dropWhile_eq_Nil_conv[THEN iffD2]) auto
        ultimately show ?thesis using assms by simp
      next
        case False
        then obtain y where "y \<in> set (d # r)" "\<not> \<not> isspace y" by blast
        then show ?thesis by (rule dropWhile_append1)
      qed
    qed
    have "py_split (s @ c # x) =
        takeWhile (\<lambda>c. \<not> isspace c) ((d # r) @ c # x) #
          py_split (dropWhile (\<lambda>c. \<not> isspace c) ((d # r) @ c # x))"
      by (subst py_split.simps) (simp add: e Let_def)
    then have "py_split (s @ c # x) =
        takeWhile (\<lambda>c. \<not> isspace c) (d # r) #
          py_split (dropWhile (\<lambda>c. \<not> isspace c) (d # r) @ c # x)"
      unfolding t dr .
    moreover have "py_split s =
        takeWhile (\<lambda>c. \<not> isspace c) (d # r) # py_split (dropWhile (\<lambda>c. \<not> isspace c) (d # r))"
      by (subst py_split.simps) (simp only: Cons Let_def list.distinct if_False)
    moreover have "py_split (dropWhile (\<lambda>c. \<not> isspace c) (d # r) @ c # x) =
        py_split (dropWhile (\<lambda>c. \<not> isspace c) (d # r)) @ py_split x"
      using "1.IH"[of "d # r"] Cons by simp
    ultimately show ?thesis by simp
  qed
qed

lemma sub_voltage_tokens:
  "t \<in> set (py_split (sub_voltage s)) \<Longrightarrow> \<exists>a b. s = a @ t @ b"
proof (induction s arbitrary: t rule: sub_voltage.induct)
  case (1 s)
  show ?case
  proof (cases "search_voltage s")
    case None
    with "1.prems" have "t \<in> set (py_split s)" by (subst (asm) sub_voltage.simps) simp
    then show ?thesis by (rule py_split_substring)
  next
    case (Some a)
    obtain p g r where a: "a = (p, g, r)" by (cases a)
    from search_voltage_Some[OF Some[unfolded a]] obtain x where x: "s = p @ x"
      and m: "match_voltage x = Some (g, r)" by blast
    from match_voltage_Some(2)[OF m] obtain ws ws' where e: "x = ws @ g @ ws' @ r" by blast
    have "isspace (of_char CHR '' '')" by (simp add: isspace_def)
    from py_split_append_space[OF this, of p "sub_voltage r"] "1.prems" Some a
    have "t \<in> set (py_split p) \<or> t \<in> set (py_split (sub_voltage r))"
      by (subst (asm) sub_voltage.simps) auto
    then show ?thesis
    proof
      assume "t \<in> set (py_split p)"
      from py_split_substring[OF this] obtain a' b' where "p = a' @ t @ b'" by blast
      then have "s = a' @ t @ (b' @ x)" by (simp add: x)
      then show ?thesis by blast
    next
      assume "t \<in> set (py_split (sub_voltage r))"
      from "1.IH"[OF Some[unfolded a] refl refl this] obtain a' b' where "r = a' @ t @ b'" by blast
      then have "s = (p @ ws @ g @ ws' @ a') @ t @ b'" by (simp add: x e)
      then show ?thesis by blast
    qed
  qed
qed

lemma clean_fixed: "collapse_spaces (py_strip (collapse_spaces (py_strip y))) = collapse_spaces (py_strip y)"
proof -
  have "\<forall>t \<in> set (py_split y). token t" using py_split_tokens by blast
  from py_split_join[OF this] show ?thesis by (simp add: clean_eq_join)
qed

lemma clean_tokens: "py_split (collapse_spaces (py_strip y)) = py_split y"
proof -
  have "\<forall>t \<in> set (py_split y). token t" using py_split_tokens by blast
  from py_split_join[OF this] show ?thesis by (simp add: clean_eq_join)
qed

lemma extract_voltage_found:
  assumes "search_voltage s = Some (p, g, r)"
  shows "extract_voltage s = (collapse_spaces (py_strip (sub_voltage s)), g)"
proof -
  from assms have "s \<noteq> []" by auto
  with assms show ?thesis by (simp add: extract_voltage_def)
qed

text \<open>
  Claim C4, amended. A value string that contains no voltage text is returned unchanged,
  with an empty voltage. For a value string that contains one, the voltage returned is
  the voltage text at the leftmost position where one occurs, and the remainder is the
  string with every match replaced by a space, then stripped, its whitespace collapsed:
  it contains no voltage text any more, its whitespace is in collapsed form, and each of
  its words stands in the value string. \<open>extract_voltage("100n 16V")\<close> is
  \<open>("100n", "16V")\<close> and \<open>extract_voltage("10k")\<close> is \<open>("10k", "")\<close>.
\<close>

theorem extract_voltage_removes_all:
  "(\<not> contains_voltage value_str \<longrightarrow> extract_voltage value_str = (value_str, [])) \<and>
   (contains_voltage value_str \<longrightarrow>
      (\<exists>a b. value_str = a @ snd (extract_voltage value_str) @ b \<and>
         voltage_text (snd (extract_voltage value_str)) \<and>
         (\<forall>a' g' b'. value_str = a' @ g' @ b' \<and> voltage_text g' \<longrightarrow> length a \<le> length a')) \<and>
      fst (extract_voltage value_str) = collapse_spaces (py_strip (sub_voltage value_str)) \<and>
      \<not> contains_voltage (fst (extract_voltage value_str)) \<and>
      collapse_spaces (py_strip (fst (extract_voltage value_str))) = fst (extract_voltage value_str) \<and>
      (\<forall>t \<in> set (py_split (fst (extract_voltage value_str))). \<exists>a b. value_str = a @ t @ b)) \<and>
   extract_voltage (str ''100n 16V'') = (str ''100n'', str ''16V'') \<and>
   extract_voltage (str ''10k'') = (str ''10k'', [])"
proof (intro conjI impI)
  assume "\<not> contains_voltage value_str"
  then have "search_voltage value_str = None" by (simp add: search_voltage_None_iff)
  then show "extract_voltage value_str = (value_str, [])" by (simp add: extract_voltage_def)
next
  assume c: "contains_voltage value_str"
  then obtain p g r where s: "search_voltage value_str = Some (p, g, r)"
    using search_voltage_None_iff[of value_str] by (cases "search_voltage value_str") auto
  note e = extract_voltage_found[OF s]
  from first_match[OF s] e
  show "\<exists>a b. value_str = a @ snd (extract_voltage value_str) @ b \<and>
         voltage_text (snd (extract_voltage value_str)) \<and>
         (\<forall>a' g' b'. value_str = a' @ g' @ b' \<and> voltage_text g' \<longrightarrow> length a \<le> length a')"
    by simp
  show "fst (extract_voltage value_str) = collapse_spaces (py_strip (sub_voltage value_str))"
    by (simp add: e)
  show "\<not> contains_voltage (fst (extract_voltage value_str))"
    using clean_keeps_clean[OF sub_voltage_clean, of value_str] by (simp add: e)
  show "collapse_spaces (py_strip (fst (extract_voltage value_str))) = fst (extract_voltage value_str)"
    by (simp add: e clean_fixed)
  show "\<forall>t \<in> set (py_split (fst (extract_voltage value_str))). \<exists>a b. value_str = a @ t @ b"
    using sub_voltage_tokens[of _ value_str] by (simp add: e clean_tokens)
next
  show "extract_voltage (str ''100n 16V'') = (str ''100n'', str ''16V'')"
    by (simp add: eval_simps eval_voltage)
  show "extract_voltage (str ''10k'') = (str ''10k'', [])"
    by (simp add: eval_simps eval_voltage)
qed

text \<open>
  The claim as stated, with the removal of the first match only, fails on \<open>1V 2V\<close>:
  the remainder would be \<open>2V\<close>, and \<open>extract_voltage\<close> returns the empty text.
\<close>

theorem extract_voltage_first_only_counterexample:
  "extract_voltage (str ''1V 2V'') = ([], str ''1V'') \<and>
   collapse_spaces (py_strip (remove_first_voltage (str ''1V 2V''))) = str ''2V''"
  by (simp add: eval_simps eval_voltage remove_first_voltage_def)

theorem extract_voltage_removes_all_witness:
  "\<not> contains_voltage (str ''10k'') \<and> extract_voltage (str ''10k'') = (str ''10k'', []) \<and>
   contains_voltage (str ''1V 2V'') \<and> voltage_text (snd (extract_voltage (str ''1V 2V''))) \<and>
   \<not> contains_voltage (fst (extract_voltage (str ''1V 2V'')))"
proof -
  have "search_voltage (str ''10k'') = None" by (simp add: eval_simps eval_voltage)
  then have a: "\<not> contains_voltage (str ''10k'')" by (simp add: search_voltage_None_iff)
  have "search_voltage (str ''1V 2V'') \<noteq> None" by (simp add: eval_simps eval_voltage)
  then have b: "contains_voltage (str ''1V 2V'')" by (simp add: search_voltage_None_iff)
  from extract_voltage_removes_all[of "str ''10k''"] a
  have c: "extract_voltage (str ''10k'') = (str ''10k'', [])" by blast
  from extract_voltage_removes_all[of "str ''1V 2V''"] b
  have "voltage_text (snd (extract_voltage (str ''1V 2V'')))"
    "\<not> contains_voltage (fst (extract_voltage (str ''1V 2V'')))" by blast+
  with a b c show ?thesis by simp
qed

section \<open>Properties of the record parser\<close>

lemma update_new: "k \<notin> fst ` set al \<Longrightarrow> AList.update k v al = al @ [(k, v)]"
  by (induction al) auto

lemma parse_block_eq:
  "parse_block content components i =
     (case block_props (block_at content i) of
        None \<Rightarrow> components
      | Some props \<Rightarrow>
          if base_id props \<notin> fst ` set components
          then components @ [(base_id props, props)] else components)"
  by (simp add: parse_block_def block_at_def base_id_def Let_def update_new split: option.splits)

lemma parse_blocks_inv:
  assumes "distinct (map fst comps)" "\<forall>kp \<in> set comps. base_id (snd kp) = fst kp"
  shows "distinct (map fst (foldl (parse_block content) comps idxs)) \<and>
     (\<forall>kp \<in> set (foldl (parse_block content) comps idxs). base_id (snd kp) = fst kp) \<and>
     (\<forall>b. map_of (foldl (parse_block content) comps idxs) b =
        (case map_of comps b of
           Some p \<Rightarrow> Some p
         | None \<Rightarrow> find (\<lambda>q. base_id q = b)
             (List.map_filter (\<lambda>i. block_props (block_at content i)) idxs)))"
  using assms
proof (induction idxs arbitrary: comps)
  case Nil
  then show ?case by (simp add: map_filter_simps split: option.splits)
next
  case (Cons i idxs)
  let ?c = "parse_block content comps i"
  have d: "distinct (map fst ?c)" and k: "\<forall>kp \<in> set ?c. base_id (snd kp) = fst kp"
    using Cons.prems by (auto simp: parse_block_eq split: option.splits)
  note IH = Cons.IH[OF d k]
  have m: "(case map_of ?c b of Some p \<Rightarrow> Some p
         | None \<Rightarrow> find (\<lambda>q. base_id q = b)
             (List.map_filter (\<lambda>i. block_props (block_at content i)) idxs)) =
        (case map_of comps b of Some p \<Rightarrow> Some p
         | None \<Rightarrow> find (\<lambda>q. base_id q = b)
             (List.map_filter (\<lambda>i. block_props (block_at content i)) (i # idxs)))" for b
  proof (cases "block_props (block_at content i)")
    case None
    then show ?thesis by (simp add: parse_block_eq map_filter_simps split: option.splits)
  next
    case (Some props)
    show ?thesis
    proof (cases "base_id props \<in> fst ` set comps")
      case True
      then obtain p where "map_of comps (base_id props) = Some p"
        by (metis domD dom_map_of_conv_image_fst)
      with Some True show ?thesis
        by (auto simp: parse_block_eq map_filter_simps split: option.splits)
    next
      case False
      then have "map_of comps (base_id props) = None"
        by (simp add: map_of_eq_None_iff)
      with Some False Cons.prems(1) show ?thesis
        by (auto simp: parse_block_eq map_filter_simps map_add_def split: option.splits)
    qed
  qed
  from IH m show ?case by simp
qed

lemma parse_components_inv:
  "distinct (map fst (parse_components content))"
  "\<forall>kp \<in> set (parse_components content). base_id (snd kp) = fst kp"
  "map_of (parse_components content) b = find (\<lambda>q. base_id q = b) (instances content)"
  using parse_blocks_inv[of "[]" "remove_lib_symbols content"
      "symbol_indices (remove_lib_symbols content)"]
  by (simp_all add: parse_components_def instances_def Let_def)

lemma filter_keys_unique:
  assumes "distinct (map fst al)" "\<forall>kp \<in> set al. f (snd kp) = fst kp" "map_of al b = Some p"
  shows "filter (\<lambda>q. f q = b) (map snd al) = [p]"
  using assms
proof (induction al)
  case Nil
  then show ?case by simp
next
  case (Cons kp al)
  show ?case
  proof (cases "fst kp = b")
    case True
    with Cons.prems have p: "snd kp = p" by (cases kp) auto
    from True Cons.prems have "b \<notin> fst ` set al" by auto
    with Cons.prems(2) have "filter (\<lambda>q. f q = b) (map snd al) = []"
      by (auto simp: filter_empty_conv)
    with True p Cons.prems(2) show ?thesis by simp
  next
    case False
    with Cons.prems have "map_of al b = Some p" by (cases kp) auto
    with Cons False show ?thesis by auto
  qed
qed

lemma find_instance:
  "p \<in> set xs \<Longrightarrow> \<exists>q. find (\<lambda>q. base_id q = base_id p) xs = Some q"
  by (cases "find (\<lambda>q. base_id q = base_id p) xs") (auto simp: find_None_iff)

lemma sheet_U1_e1: "remove_lib_symbols sheet_U1 = sheet_U1"
  by (simp add: sheet_U1_def block_U1A_def block_U1B_def eval_parse eval_simps)

lemma sheet_U1_e2: "symbol_indices sheet_U1 = [0, 73]"
  by (simp add: sheet_U1_def block_U1A_def block_U1B_def eval_parse eval_simps)

lemma sheet_U1_e3: "block_at sheet_U1 0 = block_U1A"
  by (simp add: sheet_U1_def block_U1A_def block_U1B_def eval_block eval_simps)

lemma sheet_U1_e4: "block_at sheet_U1 73 = block_U1B"
  by (simp add: sheet_U1_def block_U1A_def block_U1B_def eval_block eval_simps)

lemma sheet_U1_e5: "block_props block_U1A = Some props_U1A"
  by (simp add: block_U1A_def props_U1A_def eval_parse eval_simps)

lemma sheet_U1_e6: "block_props block_U1B = Some props_U1B"
  by (simp add: block_U1B_def props_U1B_def eval_parse eval_simps)

lemma instances_sheet_U1: "instances sheet_U1 = [props_U1A, props_U1B]"
  by (simp add: instances_def sheet_U1_e1 sheet_U1_e2 sheet_U1_e3 sheet_U1_e4 sheet_U1_e5 sheet_U1_e6 map_filter_simps)

lemma parse_components_sheet_U1: "parse_components sheet_U1 = [(str ''U1'', props_U1A)]"
proof -
  have a: "base_id props_U1A = str ''U1''" and b: "base_id props_U1B = str ''U1''"
    by (simp_all add: base_id_def props_U1A_def props_U1B_def eval_parse eval_simps)
  show ?thesis
    by (simp add: parse_components_def sheet_U1_e1 sheet_U1_e2 parse_block_eq sheet_U1_e3 sheet_U1_e4 sheet_U1_e5 sheet_U1_e6 a b)
qed

lemma base_id_U1:
  "base_id props_U1A = str ''U1''" "base_id props_U1B = str ''U1''"
  by (simp_all add: base_id_def props_U1A_def props_U1B_def eval_parse eval_simps)

text \<open>
  Claim C8. Within one parsed file, for every component instance the output holds
  exactly one record with the base id of the instance, and that record is the first
  instance of the file with this base id; every output record is an instance. The
  instances \<open>U1A\<close> and \<open>U1B\<close> of the example sheet, alike but for the reference, give
  one record, the one of \<open>U1A\<close>, and its base id is \<open>U1\<close>.
\<close>

theorem parse_dedupes_by_base_id:
  "(\<forall>p \<in> set (instances content). \<exists>first.
      find (\<lambda>q. base_id q = base_id p) (instances content) = Some first \<and>
      filter (\<lambda>q. base_id q = base_id p) (parse_schematic_file content) = [first]) \<and>
   set (parse_schematic_file content) \<subseteq> set (instances content) \<and>
   instances sheet_U1 = [props_U1A, props_U1B] \<and>
   base_id props_U1A = str ''U1'' \<and> base_id props_U1B = str ''U1'' \<and>
   parse_schematic_file sheet_U1 = [props_U1A]"
proof (intro conjI ballI)
  fix p assume "p \<in> set (instances content)"
  from find_instance[OF this] obtain q where
    q: "find (\<lambda>q. base_id q = base_id p) (instances content) = Some q" by blast
  then have "map_of (parse_components content) (base_id p) = Some q"
    by (simp add: parse_components_inv(3))
  from filter_keys_unique[OF parse_components_inv(1,2) this] q
  show "\<exists>first. find (\<lambda>q. base_id q = base_id p) (instances content) = Some first \<and>
      filter (\<lambda>q. base_id q = base_id p) (parse_schematic_file content) = [first]"
    by (simp add: parse_schematic_file_def)
next
  show "set (parse_schematic_file content) \<subseteq> set (instances content)"
  proof
    fix p assume "p \<in> set (parse_schematic_file content)"
    then obtain k where "(k, p) \<in> set (parse_components content)"
      by (auto simp: parse_schematic_file_def)
    with parse_components_inv(1)[of content]
    have "map_of (parse_components content) k = Some p" by simp
    then have "find (\<lambda>q. base_id q = k) (instances content) = Some p"
      by (simp add: parse_components_inv(3))
    then show "p \<in> set (instances content)"
      by (auto simp: find_Some_iff)
  qed
next
  show "parse_schematic_file sheet_U1 = [props_U1A]"
    by (simp add: parse_schematic_file_def parse_components_sheet_U1)
qed (simp_all add: instances_sheet_U1 base_id_U1)

theorem parse_dedupes_by_base_id_witness:
  "props_U1B \<in> set (instances sheet_U1) \<and>
   find (\<lambda>q. base_id q = base_id props_U1B) (instances sheet_U1) = Some props_U1A \<and>
   filter (\<lambda>q. base_id q = base_id props_U1B) (parse_schematic_file sheet_U1) = [props_U1A]"
proof -
  have m: "props_U1B \<in> set (instances sheet_U1)" by (simp add: instances_sheet_U1)
  have f: "find (\<lambda>q. base_id q = base_id props_U1B) (instances sheet_U1) = Some props_U1A"
    by (simp add: instances_sheet_U1 base_id_U1)
  from parse_dedupes_by_base_id[of sheet_U1] m obtain first where
    "find (\<lambda>q. base_id q = base_id props_U1B) (instances sheet_U1) = Some first"
    "filter (\<lambda>q. base_id q = base_id props_U1B) (parse_schematic_file sheet_U1) = [first]"
    by blast
  with m f show ?thesis by simp
qed

section \<open>Properties of the project scan\<close>

lemma scan_component_recorded:
  assumes "observe clk project_name (latest_mod_time st) props = Some (refdes, part_data)"
    and "map_of (extracted_parts st) (MPN part_data) = Some existing"
  shows "extracted_parts (scan_component clk project_name st props) = extracted_parts st"
    and "latest_mod_time (scan_component clk project_name st props) = latest_mod_time st"
  using assms by (simp_all add: scan_component_def Let_def)

lemma scan_component_keeps:
  assumes "map_of (extracted_parts st) mpn = Some existing"
  shows "map_of (extracted_parts (scan_component clk project_name st props)) mpn = Some existing"
proof (cases "observe clk project_name (latest_mod_time st) props")
  case None
  with assms show ?thesis by (simp add: scan_component_def)
next
  case (Some a)
  obtain refdes part_data where a: "a = (refdes, part_data)" by (cases a)
  show ?thesis
  proof (cases "map_of (extracted_parts st) (MPN part_data)")
    case None
    with assms have "MPN part_data \<noteq> mpn" by auto
    with Some a None assms show ?thesis
      by (simp add: scan_component_def Let_def update_conv')
  next
    case (Some e)
    with \<open>observe clk project_name (latest_mod_time st) props = Some a\<close> a assms
    show ?thesis by (simp add: scan_component_def Let_def)
  qed
qed

lemma scan_components_keep:
  "map_of (extracted_parts st) mpn = Some existing \<Longrightarrow>
   map_of (extracted_parts (foldl (scan_component clk project_name) st comps)) mpn = Some existing"
  by (induction comps arbitrary: st) (simp_all add: scan_component_keeps)

lemma scan_sheet_keeps:
  assumes "map_of (extracted_parts st) mpn = Some existing"
  shows "map_of (extracted_parts (scan_sheet clk project_name st sheet)) mpn = Some existing"
  using assms unfolding scan_sheet_def Let_def
  by (intro scan_components_keep) simp

lemma scan_sheets_keep:
  "map_of (extracted_parts st) mpn = Some existing \<Longrightarrow>
   map_of (extracted_parts (foldl (scan_sheet clk project_name) st sheets)) mpn = Some existing"
  by (induction sheets arbitrary: st) (simp_all add: scan_sheet_keeps)

text \<open>
  Claim C10. Within one project scan, an observation whose MPN is already recorded
  leaves the dictionary of extracted parts as it is, whether or not its value and
  footprint agree with the record: nothing of it is merged. So a record, once made, is
  still the same record after any further components and sheets.
\<close>

theorem scan_first_seen_kept:
  "(observe clk project_name (latest_mod_time st) props = Some (refdes, part_data) \<and>
    map_of (extracted_parts st) (MPN part_data) = Some existing \<longrightarrow>
      extracted_parts (scan_component clk project_name st props) = extracted_parts st) \<and>
   (map_of (extracted_parts st) mpn = Some existing \<longrightarrow>
      map_of (extracted_parts (foldl (scan_component clk project_name) st comps)) mpn =
        Some existing \<and>
      map_of (extracted_parts (foldl (scan_sheet clk project_name) st sheets)) mpn =
        Some existing)"
  using scan_component_recorded(1)[of clk project_name st props refdes part_data existing]
    scan_components_keep[of st mpn existing clk project_name comps]
    scan_sheets_keep[of st mpn existing clk project_name sheets]
  by blast

theorem scan_first_seen_kept_witness:
  "observe example_clock (str ''radio'') (latest_mod_time state_after_R1) props_R2 =
     Some (str ''R2'', part_of_R1\<lparr>Voltage := str ''50V'', Mouser_PN := str ''M1''\<rparr>) \<and>
   map_of (extracted_parts state_after_R1) (str ''X1'') = Some part_of_R1 \<and>
   extracted_parts (scan_component example_clock (str ''radio'') state_after_R1 props_R2) =
     [(str ''X1'', part_of_R1)] \<and>
   map_of (extracted_parts (foldl (scan_component example_clock (str ''radio'')) state_after_R1
      [props_R2, props_R1])) (str ''X1'') = Some part_of_R1"
proof -
  have a: "observe example_clock (str ''radio'') (latest_mod_time state_after_R1) props_R2 =
     Some (str ''R2'', part_of_R1\<lparr>Voltage := str ''50V'', Mouser_PN := str ''M1''\<rparr>)"
    by (simp add: state_after_R1_def example_clock_def props_R2_def part_of_R1_def
        eval_observe eval_simps eval_normalize eval_voltage)
  have b: "map_of (extracted_parts state_after_R1) (str ''X1'') = Some part_of_R1"
    by (simp add: state_after_R1_def)
  have c: "MPN (part_of_R1\<lparr>Voltage := str ''50V'', Mouser_PN := str ''M1''\<rparr>) = str ''X1''"
    by (simp add: part_of_R1_def)
  have d: "extracted_parts state_after_R1 = [(str ''X1'', part_of_R1)]"
    by (simp add: state_after_R1_def)
  from scan_first_seen_kept[of example_clock "str ''radio''" state_after_R1 props_R2 "str ''R2''"
      "part_of_R1\<lparr>Voltage := str ''50V'', Mouser_PN := str ''M1''\<rparr>" part_of_R1 "str ''X1''"
      "[props_R2, props_R1]" "[]"] a b c d
  show ?thesis by simp
qed

section \<open>Properties of the order of the output rows\<close>

lemma keyed_rows_Inr:
  "keyed_rows ops rows = Inr ks \<Longrightarrow>
   map snd ks = rows \<and> (\<forall>p \<in> set ks. row_key ops (snd p) = Inr (fst p))"
  by (induction rows arbitrary: ks) (auto split: sum.splits)

lemma keyed_rows_returns:
  "(\<forall>x \<in> set rows. \<exists>k. row_key ops x = Inr k) \<Longrightarrow> \<exists>ks. keyed_rows ops rows = Inr ks"
  by (induction rows) (auto split: sum.splits)

lemma row_key_order:
  fixes ops :: "('f::linorder) float_ops"
  assumes "row_key ops a = Inr ka" "row_key ops b = Inr kb" "ka \<le> kb"
  shows "rows_in_order ops a b"
proof -
  from assms(1) obtain va where va: "numeric_value ops a = Inr va"
    and ka: "ka = (Type a, va, text_value a, parse_voltage_to_float ops (Voltage a), Footprint a, MPN a)"
    by (auto simp: row_key_def numeric_value_def text_value_def split: sum.splits if_splits)
  from assms(2) obtain vb where vb: "numeric_value ops b = Inr vb"
    and kb: "kb = (Type b, vb, text_value b, parse_voltage_to_float ops (Voltage b), Footprint b, MPN b)"
    by (auto simp: row_key_def numeric_value_def text_value_def split: sum.splits if_splits)
  from assms(3) show ?thesis
    unfolding rows_in_order_def ka kb using va vb
    by (auto simp: less_le)
qed

lemma sorted_parts_order:
  fixes ops :: "('f::linorder) float_ops"
  assumes "sorted_parts ops master = Inr out"
  shows "mset out = mset (map snd master)" and "sorted_wrt (rows_in_order ops) out"
proof -
  from assms obtain ks where ks: "keyed_rows ops (map snd master) = Inr ks"
    and out: "out = map snd (sort_key fst ks)"
    by (auto simp: sorted_parts_def split: sum.splits)
  from keyed_rows_Inr[OF ks] have m: "map snd ks = map snd master"
    and k: "\<forall>p \<in> set ks. row_key ops (snd p) = Inr (fst p)" by auto
  have "mset out = image_mset snd (mset (sort_key fst ks))" by (simp add: out)
  also have "\<dots> = image_mset snd (mset ks)" by simp
  also have "\<dots> = mset (map snd master)" using m by (metis mset_map)
  finally show "mset out = mset (map snd master)" .
  have "sorted (map fst (sort_key fst ks))" by (rule sorted_sort_key)
  then have s: "sorted_wrt (\<lambda>p q. fst p \<le> fst q) (sort_key fst ks)"
    by (simp add: sorted_map)
  have "sorted_wrt (\<lambda>p q. rows_in_order ops (snd p) (snd q)) (sort_key fst ks)"
  proof (rule sorted_wrt_mono_rel[OF _ s])
    fix p q
    assume "p \<in> set (sort_key fst ks)" "q \<in> set (sort_key fst ks)" "fst p \<le> fst q"
    with k show "rows_in_order ops (snd p) (snd q)"
      by (intro row_key_order[of ops _ "fst p" _ "fst q"]) auto
  qed
  then show "sorted_wrt (rows_in_order ops) out"
    by (simp add: out sorted_wrt_map)
qed

lemma value_100R:
  "py_float ops (str ''100'') = Some a \<Longrightarrow> parse_value_to_float ops (str ''100R'') = Inr a"
  by (simp add: eval_float eval_simps)

lemma value_4k7:
  "py_float ops (str ''4.7'') = Some b \<Longrightarrow>
   parse_value_to_float ops (str ''4.7k'') = Inr (py_mul ops b (py_lit ops ''1e3''))"
  by (simp add: eval_float eval_simps)

lemma value_1M:
  "py_float ops (str ''1'') = Some c \<Longrightarrow>
   parse_value_to_float ops (str ''1M'') = Inr (py_mul ops c (py_lit ops ''1e6''))"
  by (simp add: eval_float eval_simps)

lemma R_value_bearing: "str ''R'' \<in> set VALUE_PARSE_TYPES"
  by (simp add: VALUE_PARSE_TYPES_def)

lemma row_key_returns:
  "numeric_value ops x = Inr v \<Longrightarrow> \<exists>k. row_key ops x = Inr k"
  by (auto simp: row_key_def numeric_value_def split: if_splits)

lemma sorted_parts_returns:
  fixes ops :: "('f::linorder) float_ops"
  assumes "\<forall>x \<in> set (map snd master). \<exists>v. numeric_value ops x = Inr v"
  shows "\<exists>out. sorted_parts ops master = Inr out"
proof -
  have "\<forall>x \<in> set (map snd master). \<exists>k. row_key ops x = Inr k"
  proof
    fix x assume "x \<in> set (map snd master)"
    with assms obtain v where "numeric_value ops x = Inr v" by blast
    then show "\<exists>k. row_key ops x = Inr k" by (rule row_key_returns)
  qed
  from keyed_rows_returns[OF this] show ?thesis
    by (auto simp: sorted_parts_def)
qed

lemma three_rows_sorted:
  fixes ops :: "('f::linorder) float_ops"
  assumes t: "Type r1 = str ''R''" "Type r2 = str ''R''" "Type r3 = str ''R''"
    and v: "Value r1 = str ''100R''" "Value r2 = str ''4.7k''" "Value r3 = str ''1M''"
    and f: "py_float ops (str ''100'') = Some a" "py_float ops (str ''4.7'') = Some b"
      "py_float ops (str ''1'') = Some c"
    and o: "a < py_mul ops b (py_lit ops ''1e3'')"
      "py_mul ops b (py_lit ops ''1e3'') < py_mul ops c (py_lit ops ''1e6'')"
    and m: "mset (map snd master) = {#r1, r2, r3#}"
  shows "sorted_parts ops master = Inr [r1, r2, r3]"
proof -
  let ?b = "py_mul ops b (py_lit ops ''1e3'')" and ?c = "py_mul ops c (py_lit ops ''1e6'')"
  have n: "numeric_value ops r1 = Inr a" "numeric_value ops r2 = Inr ?b" "numeric_value ops r3 = Inr ?c"
    using t v f value_100R[of ops a] value_4k7[of ops b] value_1M[of ops c]
    by (simp_all add: numeric_value_def R_value_bearing)
  define g where "g x = (case numeric_value ops x of Inr v \<Rightarrow> v | Inl _ \<Rightarrow> a)" for x
  have g: "g r1 = a" "g r2 = ?b" "g r3 = ?c" using n by (simp_all add: g_def)
  have s: "set (map snd master) = {r1, r2, r3}"
    using m by (metis set_mset_mset set_mset_add_mset_insert set_mset_empty)
  then have "\<forall>x \<in> set (map snd master). \<exists>v. numeric_value ops x = Inr v" using n by auto
  from sorted_parts_returns[OF this] obtain out where out: "sorted_parts ops master = Inr out"
    by blast
  from sorted_parts_order[OF out] m have mo: "mset out = {#r1, r2, r3#}"
    and so: "sorted_wrt (rows_in_order ops) out" by simp_all
  from mo have se: "set out = {r1, r2, r3}"
    by (metis set_mset_mset set_mset_add_mset_insert set_mset_empty)
  have d3: "distinct [r1, r2, r3]" using g o less_trans[OF o] by auto
  have "mset out = mset [r1, r2, r3]" using mo by simp
  then have d: "distinct out" using d3 by (metis mset_eq_imp_distinct_iff)
  have inj: "inj_on g {r1, r2, r3}" using g o less_trans[OF o] by (auto simp: inj_on_def)
  have "sorted_wrt (\<lambda>x y. g x \<le> g y) out"
  proof (rule sorted_wrt_mono_rel[OF _ so])
    fix x y
    assume "x \<in> set out" "y \<in> set out" "rows_in_order ops x y"
    then show "g x \<le> g y"
      using se t by (auto simp: rows_in_order_def g_def)
  qed
  then have s1: "sorted (map g out)" by (simp add: sorted_map)
  have ac: "a < ?c" using o by (rule less_trans)
  have s2: "sorted (map g [r1, r2, r3])" using g o ac by (simp add: less_imp_le)
  have d1: "distinct (map g out)" using d inj se by (simp add: distinct_map)
  have d2: "distinct (map g [r1, r2, r3])" using g o less_trans[OF o] by auto
  have "set (map g out) = set (map g [r1, r2, r3])" using se by simp
  from sorted_distinct_set_unique[OF s1 d1 s2 d2 this]
  have "map g out = map g [r1, r2, r3]" .
  then have "out = [r1, r2, r3]"
    using inj se by (intro inj_on_map_eq_map[THEN iffD1, of g]) (auto simp: inj_on_def)
  with out show ?thesis by simp
qed

text \<open>
  Claim C9. The rows that \<open>main\<close> writes are the rows of the inventory, each once, and
  every row is in order with every later one: by type, then by the numeric projection of
  the value for a value-bearing type (the text component being empty) or by the raw value
  for another type (the numeric component being \<open>0.0\<close>), then by numeric voltage, then by
  footprint, then by MPN. Three rows of type \<open>R\<close> with the values \<open>100R\<close>, \<open>4.7k\<close>
  and \<open>1M\<close> come out in this order, whatever their order in the inventory, for float
  operations with \<open>float("100") < float("4.7") * 1e3 < float("1") * 1e6\<close>.
\<close>

theorem sorted_parts_spec:
  fixes ops :: "('f::linorder) float_ops"
  shows "(sorted_parts ops master = Inr out \<longrightarrow>
            mset out = mset (map snd master) \<and> sorted_wrt (rows_in_order ops) out) \<and>
         (Type r1 = str ''R'' \<and> Type r2 = str ''R'' \<and> Type r3 = str ''R'' \<and>
          Value r1 = str ''100R'' \<and> Value r2 = str ''4.7k'' \<and> Value r3 = str ''1M'' \<and>
          py_float ops (str ''100'') = Some a \<and> py_float ops (str ''4.7'') = Some b \<and>
          py_float ops (str ''1'') = Some c \<and>
          a < py_mul ops b (py_lit ops ''1e3'') \<and>
          py_mul ops b (py_lit ops ''1e3'') < py_mul ops c (py_lit ops ''1e6'') \<and>
          mset (map snd rows) = {#r1, r2, r3#} \<longrightarrow>
            sorted_parts ops rows = Inr [r1, r2, r3])"
  using sorted_parts_order[of ops master out]
    three_rows_sorted[of r1 r2 r3 ops a b c rows]
  by blast

theorem sorted_parts_spec_witness:
  "sorted_parts exact_ops three_rows = Inr [row_100R, row_4k7, row_1M] \<and>
   mset [row_100R, row_4k7, row_1M] = mset (map snd three_rows) \<and>
   sorted_wrt (rows_in_order exact_ops) [row_100R, row_4k7, row_1M]"
proof -
  have h: "Type row_100R = str ''R'' \<and> Type row_4k7 = str ''R'' \<and> Type row_1M = str ''R'' \<and>
      Value row_100R = str ''100R'' \<and> Value row_4k7 = str ''4.7k'' \<and> Value row_1M = str ''1M'' \<and>
      py_float exact_ops (str ''100'') = Some 100 \<and> py_float exact_ops (str ''4.7'') = Some (47 / 10) \<and>
      py_float exact_ops (str ''1'') = Some 1 \<and>
      100 < py_mul exact_ops (47 / 10) (py_lit exact_ops ''1e3'') \<and>
      py_mul exact_ops (47 / 10) (py_lit exact_ops ''1e3'') < py_mul exact_ops 1 (py_lit exact_ops ''1e6'') \<and>
      mset (map snd three_rows) = {#row_100R, row_4k7, row_1M#}"
    by (simp add: row_100R_def row_4k7_def row_1M_def part_R1_def three_rows_def exact_ops_def
        exact_float_def exact_literal_def digits_value_def str_def)
  note t = sorted_parts_spec[of exact_ops three_rows "[row_100R, row_4k7, row_1M]"
      row_100R row_4k7 row_1M 100 "47 / 10" 1 three_rows]
  from t h have r: "sorted_parts exact_ops three_rows = Inr [row_100R, row_4k7, row_1M]" by blast
  with t show ?thesis by blast
qed

end
